theory Spec2Isabelle
  imports Complex_Main "HOL-Library.Word" "HOL-Library.Char_ord" "HOL-Library.List_Lexorder"
begin

section \<open>Object cache (utils/DataCache.cpp)\<close>

subsection \<open>Data model\<close>

text \<open>
  Sizes are C++ \<open>unsigned int\<close> (32 bits, arithmetic wraps), epoch times and the age
  limit are C++ \<open>double\<close>, taken here as real numbers (rounding, infinities and NaN are
  not modelled). A \<open>std::string\<close> is a list of bytes.
\<close>

type_synonym uint = "32 word"

record CacheItem =
  m_Path :: string
  m_Id :: string
  m_Time :: real
  m_Size :: uint
  m_bLoaded :: bool
  m_Data :: string

text \<open>
  Modelled from the spec: the default constructor of \<open>CacheItem\<close> (declared in
  DataCache.h, which is not among the sources). The spec says that an entry found by the
  directory scan starts unloaded; its time and size are zero until assigned.
\<close>

definition CacheItem_new :: CacheItem where
  "CacheItem_new =
     \<lparr>m_Path = [], m_Id = [], m_Time = 0, m_Size = 0, m_bLoaded = False, m_Data = []\<rparr>"

text \<open>
  \<open>CacheMap\<close> is \<open>std::map<std::string, CacheItem>\<close>: the entries in ascending key
  order, one per key. \<open>find\<close> is \<open>map_of\<close>; \<open>cache_put\<close> is what \<open>m_Cache[id]\<close> followed
  by assignments through the returned reference leaves behind; \<open>cache_erase\<close> is
  \<open>erase\<close>.
\<close>

type_synonym CacheMap = "(string \<times> CacheItem) list"

definition cache_at :: "CacheMap \<Rightarrow> string \<Rightarrow> CacheItem" where
  "cache_at m k = (case map_of m k of None \<Rightarrow> CacheItem_new | Some item \<Rightarrow> item)"

definition cache_put :: "string \<Rightarrow> CacheItem \<Rightarrow> CacheMap \<Rightarrow> CacheMap" where
  "cache_put k item m = [e \<leftarrow> m. fst e < k] @ [(k, item)] @ [e \<leftarrow> m. k < fst e]"

definition cache_erase :: "string \<Rightarrow> CacheMap \<Rightarrow> CacheMap" where
  "cache_erase k m = [e \<leftarrow> m. fst e \<noteq> k]"

record DataCache =
  m_bInitialized :: bool
  m_CachePath :: string
  m_MaxCacheSize :: uint
  m_MaxCacheAge :: real
  m_CurrentCacheSize :: uint
  m_Cache :: CacheMap

definition DataCache_new :: DataCache where
  "DataCache_new =
     \<lparr>m_bInitialized = False, m_CachePath = [], m_MaxCacheSize = 0, m_MaxCacheAge = 0,
      m_CurrentCacheSize = 0, m_Cache = []\<rparr>"

subsection \<open>The file system the cache talks to\<close>

text \<open>
  The boost::filesystem and fstream calls of the source act on this state. Regular files
  are kept by their path string, in the order a directory scan reports them. Each call
  that can fail has a list of the paths on which it fails: \<open>fs_mkdir_throws\<close> for
  \<open>create_directories\<close>, \<open>fs_remove_throws\<close> for \<open>remove\<close>, \<open>fs_time_throws\<close> for
  \<open>last_write_time\<close>, \<open>fs_size_throws\<close> for \<open>file_size\<close>, and \<open>fs_write_fails\<close> for
  opening an \<open>ofstream\<close> (which does not throw: the stream is just bad).
\<close>

record fs_file =
  f_data :: string
  f_time :: real

record filesystem =
  fs_dirs :: "string list"
  fs_files :: "(string \<times> fs_file) list"
  fs_mkdir_throws :: "string list"
  fs_remove_throws :: "string list"
  fs_write_fails :: "string list"
  fs_time_throws :: "string list"
  fs_size_throws :: "string list"

definition dir_prefix :: "string \<Rightarrow> string" where
  "dir_prefix d = (if d \<noteq> [] \<and> last d = CHR ''/'' then d else d @ ''/'')"

definition is_directory :: "string \<Rightarrow> filesystem \<Rightarrow> bool" where
  "is_directory d fs = (dir_prefix d \<in> set (map dir_prefix (fs_dirs fs)))"

definition create_directories :: "string \<Rightarrow> filesystem \<Rightarrow> filesystem option" where
  "create_directories d fs =
     (if d \<in> set (fs_mkdir_throws fs) then None
      else Some (fs\<lparr>fs_dirs := fs_dirs fs @ [d]\<rparr>))"

definition directly_under :: "string \<Rightarrow> string \<Rightarrow> bool" where
  "directly_under pre p =
     (take (length pre) p = pre \<and> drop (length pre) p \<noteq> [] \<and>
      CHR ''/'' \<notin> set (drop (length pre) p))"

text \<open>
  \<open>directory_iterator\<close>: the entries directly under a directory, each with its path and
  whether it is a regular file (sub-directories are reported too, and are not).
\<close>

definition directory_iterator :: "string \<Rightarrow> filesystem \<Rightarrow> (string \<times> bool) list" where
  "directory_iterator d fs =
     [(p, True). (p, f) \<leftarrow> fs_files fs, directly_under (dir_prefix d) p] @
     [(p, False). p \<leftarrow> fs_dirs fs, directly_under (dir_prefix d) p]"

definition filename :: "string \<Rightarrow> string" where
  "filename p = rev (takeWhile (\<lambda>c. c \<noteq> CHR ''/'') (rev p))"

text \<open>\<open>path::stem\<close>: the file name without its last extension.\<close>

definition stem :: "string \<Rightarrow> string" where
  "stem p =
     (let n = filename p in
      if n = ''.'' \<or> n = ''..'' \<or> CHR ''.'' \<notin> set n then n
      else rev (tl (dropWhile (\<lambda>c. c \<noteq> CHR ''.'') (rev n))))"

definition last_write_time :: "string \<Rightarrow> filesystem \<Rightarrow> real option" where
  "last_write_time p fs =
     (if p \<in> set (fs_time_throws fs) then None
      else map_option f_time (map_of (fs_files fs) p))"

definition file_size :: "string \<Rightarrow> filesystem \<Rightarrow> nat option" where
  "file_size p fs =
     (if p \<in> set (fs_size_throws fs) then None
      else map_option (\<lambda>f. length (f_data f)) (map_of (fs_files fs) p))"

text \<open>Reading a whole file through an \<open>ifstream\<close>; a file that cannot be opened reads as empty.\<close>

definition read_file :: "string \<Rightarrow> filesystem \<Rightarrow> string" where
  "read_file p fs = (case map_of (fs_files fs) p of None \<Rightarrow> [] | Some f \<Rightarrow> f_data f)"

text \<open>Writing through an \<open>ofstream\<close> opened with \<open>ios::out\<close>: the file is replaced.\<close>

definition write_file :: "string \<Rightarrow> string \<Rightarrow> real \<Rightarrow> filesystem \<Rightarrow> filesystem" where
  "write_file p d now fs =
     (if p \<in> set (fs_write_fails fs) then fs
      else fs\<lparr>fs_files :=
             (if map_of (fs_files fs) p = None
              then fs_files fs @ [(p, \<lparr>f_data = d, f_time = now\<rparr>)]
              else map (\<lambda>e. if fst e = p then (p, \<lparr>f_data = d, f_time = now\<rparr>) else e)
                     (fs_files fs))\<rparr>)"

text \<open>\<open>fs::remove\<close>: \<open>None\<close> when it throws; removing a file that is not there is no error.\<close>

definition remove_file :: "string \<Rightarrow> filesystem \<Rightarrow> filesystem option" where
  "remove_file p fs =
     (if p \<in> set (fs_remove_throws fs) then None
      else Some (fs\<lparr>fs_files := [e \<leftarrow> fs_files fs. fst e \<noteq> p]\<rparr>))"

text \<open>
  Modelled from the spec: \<open>StringUtil::Replace\<close> (StringUtil.cpp is not among the
  sources), called as \<open>Replace(id, "/", "_")\<close>. The spec says it replaces the path
  separators of an id with underscores.
\<close>

definition Replace :: "string \<Rightarrow> char \<Rightarrow> char \<Rightarrow> string" where
  "Replace text a b = map (\<lambda>c. if c = a then b else c) text"

subsection \<open>Operations\<close>

text \<open>
  Every operation takes the cache and the file system and returns its result with both,
  updated. The wall clock (\<open>Time()\<close>) is the argument \<open>now\<close> of the operations that read it.
\<close>

definition Flush :: "string \<Rightarrow> DataCache \<Rightarrow> filesystem \<Rightarrow> bool \<times> DataCache \<times> filesystem" where
  "Flush a_ID s fs =
     (let id = Replace a_ID CHR ''/'' CHR ''_'' in
      case map_of (m_Cache s) id of
        Some item \<Rightarrow>
          (case remove_file (m_Path item) fs of
             None \<Rightarrow> (False, s, fs)
           | Some fs' \<Rightarrow>
               (True,
                s\<lparr>m_CurrentCacheSize := m_CurrentCacheSize s - m_Size item,
                  m_Cache := cache_erase id (m_Cache s)\<rparr>,
                fs'))
      | None \<Rightarrow> (False, s, fs))"

fun flush_each :: "string list \<Rightarrow> bool \<Rightarrow> DataCache \<Rightarrow> filesystem \<Rightarrow> bool \<times> DataCache \<times> filesystem" where
  "flush_each [] bFlushed s fs = (bFlushed, s, fs)"
| "flush_each (i # is) bFlushed s fs =
     (case Flush i s fs of (r, s', fs') \<Rightarrow> flush_each is (bFlushed \<or> r) s' fs')"

definition aged :: "real \<Rightarrow> real \<Rightarrow> CacheItem \<Rightarrow> bool" where
  "aged now maxAge item = ((now - m_Time item) / 3600 > maxAge)"

definition FlushAged :: "real \<Rightarrow> DataCache \<Rightarrow> filesystem \<Rightarrow> bool \<times> DataCache \<times> filesystem" where
  "FlushAged now s fs =
     (let flush = [m_Id item. (k, item) \<leftarrow> m_Cache s, aged now (m_MaxCacheAge s) item]
      in flush_each flush False s fs)"

fun oldest :: "CacheItem option \<Rightarrow> CacheMap \<Rightarrow> CacheItem option" where
  "oldest pOldest [] = pOldest"
| "oldest pOldest ((k, item) # m) =
     oldest (case pOldest of
               None \<Rightarrow> Some item
             | Some old \<Rightarrow> if m_Time item < m_Time old then Some item else Some old) m"

definition FlushOldest :: "DataCache \<Rightarrow> filesystem \<Rightarrow> bool \<times> DataCache \<times> filesystem" where
  "FlushOldest s fs =
     (case oldest None (m_Cache s) of
        Some item \<Rightarrow> Flush (m_Id item) s fs
      | None \<Rightarrow> (False, s, fs))"

fun remove_each :: "CacheMap \<Rightarrow> filesystem \<Rightarrow> filesystem" where
  "remove_each [] fs = fs"
| "remove_each ((k, item) # m) fs =
     remove_each m (case remove_file (m_Path item) fs of None \<Rightarrow> fs | Some fs' \<Rightarrow> fs')"

definition FlushAll :: "DataCache \<Rightarrow> filesystem \<Rightarrow> bool \<times> DataCache \<times> filesystem" where
  "FlushAll s fs =
     (True, s\<lparr>m_CurrentCacheSize := 0, m_Cache := []\<rparr>, remove_each (m_Cache s) fs)"

definition Uninitialize :: "DataCache \<Rightarrow> DataCache" where
  "Uninitialize s = s\<lparr>m_Cache := [], m_CurrentCacheSize := 0, m_bInitialized := False\<rparr>"

text \<open>
  The body of the scan loop of \<open>Initialize\<close> for one directory entry. An exception of
  \<open>last_write_time\<close> or \<open>file_size\<close> leaves the loop body where it is thrown: the
  assignments made before it stay, the later ones and the addition to the running total
  do not happen.
\<close>

definition scan_entry :: "filesystem \<Rightarrow> string \<times> bool \<Rightarrow> DataCache \<Rightarrow> DataCache" where
  "scan_entry fs e s =
     (if snd e then
        (let path = fst e;
             id = stem path;
             item1 = (cache_at (m_Cache s) id)\<lparr>m_Id := id, m_Path := path\<rparr>
         in case last_write_time path fs of
              None \<Rightarrow> s\<lparr>m_Cache := cache_put id item1 (m_Cache s)\<rparr>
            | Some t \<Rightarrow>
                (let item2 = item1\<lparr>m_Time := t\<rparr>
                 in case file_size path fs of
                      None \<Rightarrow> s\<lparr>m_Cache := cache_put id item2 (m_Cache s)\<rparr>
                    | Some n \<Rightarrow>
                        (let item3 = item2\<lparr>m_Size := of_nat n\<rparr>
                         in s\<lparr>m_Cache := cache_put id item3 (m_Cache s),
                              m_CurrentCacheSize := m_CurrentCacheSize s + m_Size item3\<rparr>)))
      else s)"

definition Initialize ::
  "string \<Rightarrow> uint \<Rightarrow> real \<Rightarrow> real \<Rightarrow> DataCache \<Rightarrow> filesystem \<Rightarrow> bool \<times> DataCache \<times> filesystem" where
  "Initialize a_CachePath maxCacheSize maxCacheAge now s fs =
     (let s1 = s\<lparr>m_bInitialized := True, m_CachePath := a_CachePath,
                 m_MaxCacheSize := maxCacheSize, m_MaxCacheAge := maxCacheAge\<rparr>
      in case (if \<not> is_directory a_CachePath fs then create_directories a_CachePath fs
               else Some fs) of
           None \<Rightarrow> (False, s1, fs)
         | Some fs1 \<Rightarrow>
             (let s2 = s1\<lparr>m_Cache := [], m_CurrentCacheSize := 0\<rparr>;
                  s3 = fold (scan_entry fs1) (directory_iterator (m_CachePath s2) fs1) s2
              in case FlushAged now s3 fs1 of (b, s4, fs2) \<Rightarrow> (True, s4, fs2)))"

definition Find :: "string \<Rightarrow> DataCache \<Rightarrow> filesystem \<Rightarrow> CacheItem option \<times> DataCache" where
  "Find a_ID s fs =
     (let id = Replace a_ID CHR ''/'' CHR ''_'' in
      case map_of (m_Cache s) id of
        Some item \<Rightarrow>
          (if \<not> m_bLoaded item then
             (let d = read_file (m_Path item) fs;
                  item1 = item\<lparr>m_Data := d, m_bLoaded := True\<rparr>
              in if length d \<noteq> unat (m_Size item) then
                   (let cur = (if length d > unat (m_Size item)
                               then m_CurrentCacheSize s + of_nat (length d - unat (m_Size item))
                               else m_CurrentCacheSize s - of_nat (unat (m_Size item) - length d));
                        item2 = item1\<lparr>m_Size := of_nat (length d)\<rparr>
                    in (Some item2,
                        s\<lparr>m_CurrentCacheSize := cur, m_Cache := cache_put id item2 (m_Cache s)\<rparr>))
                 else (Some item1, s\<lparr>m_Cache := cache_put id item1 (m_Cache s)\<rparr>))
           else (Some item, s))
      | None \<Rightarrow> (None, s))"

text \<open>
  The eviction loop of \<open>Save\<close>, \<open>while (m_CurrentCacheSize > m_MaxCacheSize) FlushOldest();\<close>.
  The result of \<open>FlushOldest\<close> is not looked at, so the loop may run forever; \<open>None\<close> is
  the loop that does not return.
\<close>

partial_function (option) evict_loop :: "DataCache \<Rightarrow> filesystem \<Rightarrow> (DataCache \<times> filesystem) option" where
  "evict_loop s fs =
     (if m_MaxCacheSize s < m_CurrentCacheSize s
      then (case FlushOldest s fs of (r, s', fs') \<Rightarrow> evict_loop s' fs')
      else Some (s, fs))"

declare evict_loop.simps [code]

definition Save ::
  "string \<Rightarrow> string \<Rightarrow> real \<Rightarrow> DataCache \<Rightarrow> filesystem \<Rightarrow> (bool \<times> DataCache \<times> filesystem) option" where
  "Save a_ID a_Data now s fs =
     (let id = Replace a_ID CHR ''/'' CHR ''_'' in
      case (if map_of (m_Cache s) id \<noteq> None then Flush id s fs else (True, s, fs)) of
        (False, s1, fs1) \<Rightarrow> Some (False, s1, fs1)
      | (True, s1, fs1) \<Rightarrow>
          (let item = (cache_at (m_Cache s1) id)
                 \<lparr>m_Path := m_CachePath s1 @ id @ ''.bytes'', m_Id := id, m_Time := now,
                  m_Size := of_nat (length a_Data), m_bLoaded := True, m_Data := a_Data\<rparr>;
               s2 = s1\<lparr>m_Cache := cache_put id item (m_Cache s1)\<rparr>;
               fs2 = write_file (m_Path item) a_Data now fs1;
               s3 = s2\<lparr>m_CurrentCacheSize := m_CurrentCacheSize s2 + m_Size item\<rparr>
           in map_option (\<lambda>(s', fs'). (True, s', fs')) (evict_loop s3 fs2)))"

section \<open>Timer scheduler (utils/TimerPool.cpp)\<close>

text \<open>
  A timer is a caller-owned object (\<open>ITimer\<close>, declared in TimerPool.h); the queue holds
  weak pointers to timers. A pointer is the address of the timer object, and \<open>timers\<close>
  gives the object at an address, \<open>None\<close> once the owner has destroyed it (the weak
  pointer no longer locks). Epoch times and intervals are C++ \<open>double\<close>, taken as reals.
  The mutex and the condition variable appear as the list of the calls made on them.
\<close>

record ITimer =
  m_NextSignal :: real
  m_Interval :: real
  m_Recurring :: bool
  m_InvokeOnMain :: bool

type_synonym timer_ref = nat
type_synonym timers = "timer_ref \<Rightarrow> ITimer option"

datatype sync_event = Lock | NotifyOne | Unlock
datatype dispatch = InvokeOnMain timer_ref | InvokeOnThread timer_ref

definition MIN_INTERVAL_TIME :: real where
  "MIN_INTERVAL_TIME = 0.01"

text \<open>
  The loop of \<open>InsertTimer\<close> over the queue, for a timer at address \<open>a\<close> whose next
  signal is \<open>t\<close>. An expired entry is skipped (\<open>continue\<close>); at the first live entry with
  a strictly greater next signal the timer is inserted before it (\<open>break\<close>); any other
  live entry clears \<open>bNewFirstTimer\<close>. The result is the queue, \<open>bInserted\<close> and
  \<open>bNewFirstTimer\<close>.
\<close>

fun insert_scan :: "timers \<Rightarrow> real \<Rightarrow> timer_ref \<Rightarrow> timer_ref list \<Rightarrow> bool \<Rightarrow> timer_ref list \<times> bool \<times> bool" where
  "insert_scan h t a [] bNewFirstTimer = ([], False, bNewFirstTimer)"
| "insert_scan h t a (w # q) bNewFirstTimer =
     (case h w of
        None \<Rightarrow> (case insert_scan h t a q bNewFirstTimer of (q', r) \<Rightarrow> (w # q', r))
      | Some spTimer \<Rightarrow>
          if t < m_NextSignal spTimer then (a # w # q, True, bNewFirstTimer)
          else (case insert_scan h t a q False of (q', r) \<Rightarrow> (w # q', r)))"

text \<open>
  \<open>InsertTimer\<close> takes a shared pointer, so the timer is alive; \<open>None\<close> is the call with
  a pointer to no timer. The second component lists the calls on \<open>m_TimerQueueLock\<close> and
  \<open>m_WakeTimer\<close>, in order.
\<close>

definition InsertTimer ::
  "timer_ref \<Rightarrow> bool \<Rightarrow> timers \<Rightarrow> timer_ref list \<Rightarrow> (timer_ref list \<times> sync_event list) option" where
  "InsertTimer a_pTimer a_bNewTimer h q =
     (case h a_pTimer of
        None \<Rightarrow> None
      | Some t \<Rightarrow>
          (case insert_scan h (m_NextSignal t) a_pTimer q True of
             (q', bInserted, bNewFirstTimer) \<Rightarrow>
               Some (if \<not> bInserted then q' @ [a_pTimer] else q',
                     (if a_bNewTimer then [Lock] else []) @
                     (if bNewFirstTimer \<and> a_bNewTimer then [NotifyOne] else []) @
                     (if a_bNewTimer then [Unlock] else []))))"

text \<open>
  \<open>later h t w\<close>: the entry \<open>w\<close> is alive and its next signal is strictly after \<open>t\<close>.
  \<open>cost now h w\<close> bounds how often the drain loop at time \<open>now\<close> can still handle the
  queue entry \<open>w\<close>: once, plus once for every \<open>MIN_INTERVAL_TIME\<close> that its next
  signal lies in the past.
\<close>

definition cost :: "real \<Rightarrow> timers \<Rightarrow> timer_ref \<Rightarrow> nat" where
  "cost now h w = (case h w of None \<Rightarrow> 1 | Some t \<Rightarrow> 1 + nat \<lfloor>(now - m_NextSignal t) / MIN_INTERVAL_TIME + 1\<rfloor>)"

definition later :: "timers \<Rightarrow> real \<Rightarrow> timer_ref \<Rightarrow> bool" where
  "later h t w = (case h w of None \<Rightarrow> False | Some spTimer \<Rightarrow> t < m_NextSignal spTimer)"

lemma insert_scan_split:
  "insert_scan h t a q b = (q', ins, b') \<Longrightarrow>
   (if ins then q' else q' @ [a]) =
     takeWhile (\<lambda>w. \<not> later h t w) q @ a # dropWhile (\<lambda>w. \<not> later h t w) q"
proof (induction q arbitrary: b q' ins b')
  case Nil
  then show ?case by simp
next
  case (Cons w q)
  show ?case
  proof (cases "later h t w")
    case True
    with Cons.prems show ?thesis
      by (auto simp: later_def split: option.splits)
  next
    case False
    obtain q1 ins1 b1 where r: "insert_scan h t a q (if h w = None then b else False) = (q1, ins1, b1)"
      by (cases "insert_scan h t a q (if h w = None then b else False)") auto
    from False r Cons.prems have "q' = w # q1" "ins = ins1"
      by (auto simp: later_def split: option.splits)
    with Cons.IH[OF r] False show ?thesis by auto
  qed
qed

lemma InsertTimer_split:
  assumes "InsertTimer a n h q = Some (q', ev)"
  shows "\<exists>ta. h a = Some ta \<and>
           q' = takeWhile (\<lambda>w. \<not> later h (m_NextSignal ta) w) q @
                a # dropWhile (\<lambda>w. \<not> later h (m_NextSignal ta) w) q"
proof -
  from assms obtain ta where ta: "h a = Some ta"
    by (auto simp: InsertTimer_def split: option.splits)
  obtain q1 ins b1 where r: "insert_scan h (m_NextSignal ta) a q True = (q1, ins, b1)"
    by (cases "insert_scan h (m_NextSignal ta) a q True") auto
  from assms ta r have "q' = (if ins then q1 else q1 @ [a])"
    by (auto simp: InsertTimer_def)
  with insert_scan_split[OF r] ta show ?thesis by simp
qed

lemma InsertTimer_sum:
  fixes f :: "timer_ref \<Rightarrow> nat"
  assumes "InsertTimer a n h q = Some (q', ev)"
  shows "sum_list (map f q') = f a + sum_list (map f q)"
proof -
  from InsertTimer_split[OF assms] obtain P where q': "q' = takeWhile P q @ a # dropWhile P q"
    by blast
  have "sum_list (map f (takeWhile P q)) + sum_list (map f (dropWhile P q)) = sum_list (map f q)"
    by (induction q) auto
  then show ?thesis unfolding q' by simp
qed

lemma cost_reinsert:
  assumes "h w = Some sp" "\<not> now < m_NextSignal sp" "MIN_INTERVAL_TIME \<le> d"
  shows "cost now (h(w \<mapsto> sp\<lparr>m_NextSignal := m_NextSignal sp + d\<rparr>)) w < cost now h w"
proof -
  let ?T = "m_NextSignal sp"
  have d: "1 / 100 \<le> d" using assms(3) by (simp add: MIN_INTERVAL_TIME_def)
  have "(now - (?T + d)) * 100 + 1 \<le> (now - ?T) * 100" using d by simp
  then have "\<lfloor>(now - (?T + d)) * 100 + 1\<rfloor> \<le> \<lfloor>(now - ?T) * 100\<rfloor>" by (rule floor_mono)
  moreover have "0 \<le> \<lfloor>(now - ?T) * 100\<rfloor>" using assms(2) by simp
  ultimately have "nat \<lfloor>(now - (?T + d)) * 100 + 1\<rfloor> < nat \<lfloor>(now - ?T) * 100 + 1\<rfloor>"
    by simp
  then show ?thesis using assms(1) by (simp add: cost_def MIN_INTERVAL_TIME_def)
qed

lemma cost_update_le:
  assumes "h w = Some sp" "\<not> now < m_NextSignal sp" "MIN_INTERVAL_TIME \<le> d"
  shows "cost now (h(w \<mapsto> sp\<lparr>m_NextSignal := m_NextSignal sp + d\<rparr>)) x \<le> cost now h x"
proof (cases "x = w")
  case True
  with cost_reinsert[of h w sp now d] assms show ?thesis by simp
next
  case False
  then show ?thesis by (simp add: cost_def)
qed

text \<open>
  The inner loop of \<open>TimerThread\<close> (\<open>while (true)\<close>, after \<open>now\<close> has been read): it
  drops expired heads, stops at an empty queue or at a head that is not due, and
  otherwise pops the head, hands it to the thread pool (recorded in the list of
  dispatches) and, when it is recurring, advances its next signal and reinserts it with
  \<open>InsertTimer(spTimer, false)\<close>. The reinserted timer is alive, so the \<open>None\<close> branch of
  that call is never taken. Every reinsertion moves the next signal forward by at least
  \<open>MIN_INTERVAL_TIME\<close>, so with real-valued times the loop ends.
\<close>

function drain ::
  "real \<Rightarrow> timers \<Rightarrow> timer_ref list \<Rightarrow> dispatch list \<Rightarrow> sync_event list \<Rightarrow>
   timers \<times> timer_ref list \<times> dispatch list \<times> sync_event list" where
  "drain now h [] ds ev = (h, [], ds, ev)"
| "drain now h (w # q) ds ev =
     (case h w of
        None \<Rightarrow> drain now h q ds ev
      | Some spTimer \<Rightarrow>
          if now < m_NextSignal spTimer then (h, w # q, ds, ev)
          else
            (let ds' = ds @ [if m_InvokeOnMain spTimer then InvokeOnMain w else InvokeOnThread w]
             in if m_Recurring spTimer then
                  (let fInterval = (if m_Interval spTimer < MIN_INTERVAL_TIME
                                    then MIN_INTERVAL_TIME else m_Interval spTimer);
                       h' = h(w \<mapsto> spTimer\<lparr>m_NextSignal := m_NextSignal spTimer + fInterval\<rparr>)
                   in case InsertTimer w False h' q of
                        None \<Rightarrow> (h', q, ds', ev)
                      | Some (q', ev') \<Rightarrow> drain now h' q' ds' (ev @ ev'))
                else drain now h q ds' ev))"
  by pat_completeness auto
termination
proof (relation "measure (\<lambda>(now, h, q, ds, ev). sum_list (map (cost now h) q))", goal_cases)
  case 1
  show ?case by simp
next
  case (2 now h w q ds ev)
  then show ?case by (simp add: cost_def)
next
  case (3 now h w q ds ev sp ds' fI h' x q' ev')
  let ?d = "if m_Interval sp < MIN_INTERVAL_TIME then MIN_INTERVAL_TIME else m_Interval sp"
  have d: "MIN_INTERVAL_TIME \<le> ?d" by simp
  from 3 have live: "h w = Some sp" and due: "\<not> now < m_NextSignal sp"
    and h': "h' = h(w \<mapsto> sp\<lparr>m_NextSignal := m_NextSignal sp + ?d\<rparr>)"
    and ins: "InsertTimer w False h' q = Some (q', ev')"
    by auto
  have "sum_list (map (cost now h') q') = cost now h' w + sum_list (map (cost now h') q)"
    by (rule InsertTimer_sum[OF ins])
  also have "\<dots> < cost now h w + sum_list (map (cost now h') q)"
    unfolding h' using cost_reinsert[of h w sp now ?d] live due d by simp
  also have "\<dots> \<le> cost now h w + sum_list (map (cost now h) q)"
    unfolding h' using cost_update_le[of h w sp now ?d] live due d by (simp add: sum_list_mono)
  finally show ?case by simp
next
  case (4 now h w q ds ev sp)
  then show ?case by (simp add: cost_def)
qed

declare drain.simps [simp del]

section \<open>Invariants of the cache\<close>

text \<open>
  \<open>total\<close> is the sum of \<open>m_Size\<close> over the indexed entries, in \<open>unsigned int\<close>
  arithmetic as the running total itself. \<open>wf_map\<close> says what a \<open>std::map\<close> filled by this
  code looks like: keys strictly ascending, every entry's \<open>m_Id\<close> its key, and no key
  with a path separator.
\<close>

definition total :: "CacheMap \<Rightarrow> uint" where
  "total m = sum_list (map (\<lambda>e. m_Size (snd e)) m)"

definition size_inv :: "DataCache \<Rightarrow> bool" where
  "size_inv s = (m_CurrentCacheSize s = total (m_Cache s))"

definition wf_map :: "CacheMap \<Rightarrow> bool" where
  "wf_map m = (sorted_wrt (<) (map fst m) \<and>
               (\<forall>e \<in> set m. m_Id (snd e) = fst e \<and> CHR ''/'' \<notin> set (fst e)))"

definition cache_inv :: "DataCache \<Rightarrow> bool" where
  "cache_inv s = (wf_map (m_Cache s) \<and> size_inv s)"

section \<open>Order of the timer queue\<close>

text \<open>
  \<open>live_times\<close> lists the next-signal times of the queue entries whose timer is still
  alive, in queue order; the queue is in order when that list is ascending. \<open>fired\<close> is
  the list of timers a drain has handed to the thread pool, in the order of the calls.
  \<open>fires_before a b\<close>: if \<open>b\<close> was dispatched at all, \<open>a\<close> was dispatched before the
  first dispatch of \<open>b\<close>.
\<close>

definition live_times :: "timers \<Rightarrow> timer_ref list \<Rightarrow> real list" where
  "live_times h q = List.map_filter (\<lambda>w. map_option m_NextSignal (h w)) q"

definition queue_sorted :: "timers \<Rightarrow> timer_ref list \<Rightarrow> bool" where
  "queue_sorted h q = sorted (live_times h q)"

fun target :: "dispatch \<Rightarrow> timer_ref" where
  "target (InvokeOnMain w) = w"
| "target (InvokeOnThread w) = w"

definition fired :: "timers \<times> timer_ref list \<times> dispatch list \<times> sync_event list \<Rightarrow> timer_ref list" where
  "fired r = map target (fst (snd (snd r)))"

definition fires_before :: "timer_ref \<Rightarrow> timer_ref \<Rightarrow> timer_ref list \<Rightarrow> bool" where
  "fires_before a b F = (b \<notin> set F \<or> a \<in> set (takeWhile (\<lambda>x. x \<noteq> b) F))"

definition order_inv :: "timer_ref \<Rightarrow> timer_ref \<Rightarrow> timer_ref list \<Rightarrow> timer_ref list \<Rightarrow> bool" where
  "order_inv a b q F =
     (fires_before a b F \<and> (a \<notin> set F \<longrightarrow> b \<notin> set (takeWhile (\<lambda>x. x \<noteq> a) q)))"

section \<open>Sequences of cache operations\<close>

text \<open>
  A caller's use of the cache after a \<open>Save\<close> is a list of operations, run one after the
  other; a \<open>Save\<close> whose eviction loop does not return stops the run (\<open>None\<close>).
  \<open>leaves_key k\<close> holds of the operations that cannot put an entry under the key \<open>k\<close>
  (again): every operation but a \<open>Save\<close> under that key, which flushes the old entry
  first, and \<open>Initialize\<close>, which clears the index and scans the directory.
\<close>

datatype cache_op =
    OpFind string
  | OpSave string string real
  | OpFlush string
  | OpFlushAged real
  | OpFlushOldest
  | OpFlushAll
  | OpInitialize string uint real real
  | OpUninitialize

fun exec :: "cache_op \<Rightarrow> DataCache \<times> filesystem \<Rightarrow> (DataCache \<times> filesystem) option" where
  "exec (OpFind a_ID) (s, fs) = Some (snd (Find a_ID s fs), fs)"
| "exec (OpSave a_ID a_Data now) (s, fs) = map_option snd (Save a_ID a_Data now s fs)"
| "exec (OpFlush a_ID) (s, fs) = Some (snd (Flush a_ID s fs))"
| "exec (OpFlushAged now) (s, fs) = Some (snd (FlushAged now s fs))"
| "exec OpFlushOldest (s, fs) = Some (snd (FlushOldest s fs))"
| "exec OpFlushAll (s, fs) = Some (snd (FlushAll s fs))"
| "exec (OpInitialize p maxSize maxAge now) (s, fs) = Some (snd (Initialize p maxSize maxAge now s fs))"
| "exec OpUninitialize (s, fs) = Some (Uninitialize s, fs)"

fun run :: "cache_op list \<Rightarrow> DataCache \<times> filesystem \<Rightarrow> (DataCache \<times> filesystem) option" where
  "run [] x = Some x"
| "run (c # cs) x = (case exec c x of None \<Rightarrow> None | Some y \<Rightarrow> run cs y)"

fun leaves_key :: "string \<Rightarrow> cache_op \<Rightarrow> bool" where
  "leaves_key k (OpSave a_ID a_Data now) = (Replace a_ID CHR ''/'' CHR ''_'' \<noteq> k)"
| "leaves_key k (OpInitialize p maxSize maxAge now) = False"
| "leaves_key k c = True"

section \<open>Concrete configurations\<close>

definition item_a :: CacheItem where
  "item_a = \<lparr>m_Path = ''/tmp/c/a.bytes'', m_Id = ''a'', m_Time = 100, m_Size = 3,
              m_bLoaded = True, m_Data = ''abc''\<rparr>"

definition cache_a :: DataCache where
  "cache_a = \<lparr>m_bInitialized = True, m_CachePath = ''/tmp/c/'', m_MaxCacheSize = 100,
               m_MaxCacheAge = 24, m_CurrentCacheSize = 3, m_Cache = [(''a'', item_a)]\<rparr>"

definition fs_a :: filesystem where
  "fs_a = \<lparr>fs_dirs = [''/tmp/c''],
            fs_files = [(''/tmp/c/a.bytes'', \<lparr>f_data = ''abc'', f_time = 100\<rparr>)],
            fs_mkdir_throws = [], fs_remove_throws = [], fs_write_fails = [],
            fs_time_throws = [], fs_size_throws = []\<rparr>"

definition fs_locked :: filesystem where
  "fs_locked = fs_a\<lparr>fs_remove_throws := [''/tmp/c/a.bytes'']\<rparr>"

definition fs_nodir :: filesystem where
  "fs_nodir = fs_a\<lparr>fs_mkdir_throws := [''/ro/cache/'']\<rparr>"

definition cache_small :: DataCache where
  "cache_small = cache_a\<lparr>m_MaxCacheSize := 4\<rparr>"

definition fs_nowrite :: filesystem where
  "fs_nowrite = fs_a\<lparr>fs_write_fails := [''/tmp/c/b.bytes'']\<rparr>"

definition item_b :: CacheItem where
  "item_b = \<lparr>m_Path = ''/tmp/c/b.bytes'', m_Id = ''b'', m_Time = 200, m_Size = 5,
              m_bLoaded = True, m_Data = ''hello''\<rparr>"

definition cache_two :: DataCache where
  "cache_two = cache_a\<lparr>m_CurrentCacheSize := 8, m_Cache := [(''a'', item_a), (''b'', item_b)]\<rparr>"

definition fs_dup :: filesystem where
  "fs_dup = \<lparr>fs_dirs = [''/tmp/c''],
              fs_files = [(''/tmp/c/x.bytes'', \<lparr>f_data = ''abc'', f_time = 10\<rparr>),
                          (''/tmp/c/x.tmp'', \<lparr>f_data = ''defg'', f_time = 20\<rparr>)],
              fs_mkdir_throws = [], fs_remove_throws = [], fs_write_fails = [],
              fs_time_throws = [], fs_size_throws = []\<rparr>"

definition fs_empty :: filesystem where
  "fs_empty = \<lparr>fs_dirs = [''/tmp/c''], fs_files = [],
                fs_mkdir_throws = [], fs_remove_throws = [], fs_write_fails = [],
                fs_time_throws = [], fs_size_throws = []\<rparr>"

definition timer_rec :: ITimer where
  "timer_rec = \<lparr>m_NextSignal = 10, m_Interval = 0, m_Recurring = True, m_InvokeOnMain = False\<rparr>"

definition timers_one :: timers where
  "timers_one = [7 \<mapsto> timer_rec]"

definition timer_at :: "real \<Rightarrow> ITimer" where
  "timer_at t = \<lparr>m_NextSignal = t, m_Interval = 0, m_Recurring = False, m_InvokeOnMain = True\<rparr>"

definition timers_abc :: timers where
  "timers_abc = [1 \<mapsto> timer_at 5, 2 \<mapsto> timer_at 7, 3 \<mapsto> timer_at 5]"

definition item_ab :: CacheItem where
  "item_ab = \<lparr>m_Path = ''/tmp/c/a_b.bytes'', m_Id = ''a_b'', m_Time = 200, m_Size = 5,
               m_bLoaded = True, m_Data = ''hello''\<rparr>"

definition item_c :: CacheItem where
  "item_c = \<lparr>m_Path = ''/tmp/c/c.bytes'', m_Id = ''c'', m_Time = 300, m_Size = 3,
              m_bLoaded = True, m_Data = ''xyz''\<rparr>"

definition cache_saved :: DataCache where
  "cache_saved = \<lparr>m_bInitialized = True, m_CachePath = ''/tmp/c/'', m_MaxCacheSize = 100,
                   m_MaxCacheAge = 24, m_CurrentCacheSize = 8,
                   m_Cache = [(''a'', item_a), (''a_b'', item_ab)]\<rparr>"

definition fs_saved :: filesystem where
  "fs_saved = \<lparr>fs_dirs = [''/tmp/c''],
                fs_files = [(''/tmp/c/a.bytes'', \<lparr>f_data = ''abc'', f_time = 100\<rparr>),
                            (''/tmp/c/a_b.bytes'', \<lparr>f_data = ''hello'', f_time = 200\<rparr>)],
                fs_mkdir_throws = [], fs_remove_throws = [], fs_write_fails = [],
                fs_time_throws = [], fs_size_throws = []\<rparr>"

definition cache_later :: DataCache where
  "cache_later = \<lparr>m_bInitialized = True, m_CachePath = ''/tmp/c/'', m_MaxCacheSize = 100,
                   m_MaxCacheAge = 24, m_CurrentCacheSize = 8,
                   m_Cache = [(''a_b'', item_ab), (''c'', item_c)]\<rparr>"

definition fs_later :: filesystem where
  "fs_later = \<lparr>fs_dirs = [''/tmp/c''],
                fs_files = [(''/tmp/c/a_b.bytes'', \<lparr>f_data = ''hello'', f_time = 200\<rparr>),
                            (''/tmp/c/c.bytes'', \<lparr>f_data = ''xyz'', f_time = 300\<rparr>)],
                fs_mkdir_throws = [], fs_remove_throws = [], fs_write_fails = [],
                fs_time_throws = [], fs_size_throws = []\<rparr>"

section \<open>Properties of the cache\<close>

lemma Replace_idem:
  "Replace (Replace x CHR ''/'' CHR ''_'') CHR ''/'' CHR ''_'' = Replace x CHR ''/'' CHR ''_''"
  by (simp add: Replace_def)

subsection \<open>The index as a map, and its total\<close>

lemma map_of_filter_less:
  "map_of [e \<leftarrow> m. fst e < k] k' = (if k' < k then map_of m k' else None)"
  by (induction m) auto

lemma map_of_filter_greater:
  "map_of [e \<leftarrow> m. k < fst e] k' = (if k < k' then map_of m k' else None)"
  by (induction m) auto

lemma map_of_filter_neq:
  "map_of [e \<leftarrow> m. fst e \<noteq> k] k' = (if k' \<noteq> k then map_of m k' else None)"
  by (induction m) auto

lemma map_of_cache_put: "map_of (cache_put k v m) k' = (if k' = k then Some v else map_of m k')"
  by (auto simp: cache_put_def map_add_def map_of_filter_less map_of_filter_greater
      split: option.splits)

lemma map_of_cache_erase: "map_of (cache_erase k m) k' = (if k' = k then None else map_of m k')"
  by (simp add: cache_erase_def map_of_filter_neq)

lemma sorted_keys_distinct: "sorted_wrt (<) (map fst (m :: CacheMap)) \<Longrightarrow> distinct (map fst m)"
  by (simp add: strict_sorted_iff)

lemma wf_map_distinct: "wf_map m \<Longrightarrow> distinct (map fst m)"
  by (simp add: wf_map_def sorted_keys_distinct)

lemma wf_map_erase: "wf_map m \<Longrightarrow> wf_map (cache_erase k m)"
  by (auto simp: wf_map_def cache_erase_def sorted_wrt_map sorted_wrt_filter)

lemma wf_map_put:
  assumes "wf_map m" "m_Id v = k" "CHR ''/'' \<notin> set k"
  shows "wf_map (cache_put k v m)"
  using assms
  by (auto simp: wf_map_def cache_put_def sorted_wrt_map sorted_wrt_append sorted_wrt_filter)

lemma total_filter_split:
  "total [e \<leftarrow> m. P e] + total [e \<leftarrow> m. \<not> P e] = total m"
  by (induction m) (auto simp: total_def)

lemma total_put_erase: "total (cache_put k v m) = total (cache_erase k m) + m_Size v"
proof -
  have "[e \<leftarrow> cache_erase k m. fst e < k] = [e \<leftarrow> m. fst e < k]"
    by (auto simp: cache_erase_def intro: filter_cong)
  moreover have "[e \<leftarrow> cache_erase k m. \<not> fst e < k] = [e \<leftarrow> m. k < fst e]"
    by (auto simp: cache_erase_def intro: filter_cong)
  ultimately have "total (cache_erase k m) = total [e \<leftarrow> m. fst e < k] + total [e \<leftarrow> m. k < fst e]"
    using total_filter_split[of "\<lambda>e. fst e < k" "cache_erase k m"] by simp
  then show ?thesis by (simp add: cache_put_def total_def)
qed

lemma total_erase:
  "distinct (map fst m) \<Longrightarrow> map_of m k = Some item \<Longrightarrow>
   total (cache_erase k m) = total m - m_Size item"
proof (induction m)
  case Nil
  then show ?case by simp
next
  case (Cons e m)
  show ?case
  proof (cases "fst e = k")
    case True
    with Cons.prems have "\<forall>x \<in> set m. fst x \<noteq> k" by (auto simp: image_iff)
    then have "[x \<leftarrow> m. fst x \<noteq> k] = m" by (simp add: filter_id_conv)
    with True Cons.prems show ?thesis by (cases e) (simp add: cache_erase_def total_def)
  next
    case False
    with Cons show ?thesis by (cases e) (simp add: cache_erase_def total_def)
  qed
qed

lemma total_erase_absent: "map_of m k = None \<Longrightarrow> cache_erase k m = m"
  by (auto simp: cache_erase_def filter_id_conv map_of_eq_None_iff image_iff)

lemma Flush_result:
  "Flush a_ID s fs =
     (case map_of (m_Cache s) (Replace a_ID CHR ''/'' CHR ''_'') of
        None \<Rightarrow> (False, s, fs)
      | Some item \<Rightarrow>
          (if m_Path item \<in> set (fs_remove_throws fs) then (False, s, fs)
           else (True,
                 s\<lparr>m_CurrentCacheSize := m_CurrentCacheSize s - m_Size item,
                   m_Cache := cache_erase (Replace a_ID CHR ''/'' CHR ''_'') (m_Cache s)\<rparr>,
                 fs\<lparr>fs_files := [e \<leftarrow> fs_files fs. fst e \<noteq> m_Path item]\<rparr>)))"
  by (simp add: Flush_def remove_file_def split: option.splits)

lemma Flush_False: "Flush a_ID s fs = (False, s', fs') \<Longrightarrow> s' = s \<and> fs' = fs"
  by (auto simp: Flush_result split: option.splits if_splits)

lemma Flush_inv: "cache_inv s \<Longrightarrow> Flush a_ID s fs = (r, s', fs') \<Longrightarrow> cache_inv s'"
  by (auto simp: Flush_result cache_inv_def size_inv_def wf_map_erase total_erase wf_map_distinct
      split: option.splits if_splits)

lemma Flush_throws_same:
  "Flush a_ID s fs = (r, s', fs') \<Longrightarrow> fs_remove_throws fs' = fs_remove_throws fs"
  by (auto simp: Flush_result split: option.splits if_splits)

lemma Flush_conf:
  "Flush a_ID s fs = (r, s', fs') \<Longrightarrow>
   m_MaxCacheSize s' = m_MaxCacheSize s \<and> m_MaxCacheAge s' = m_MaxCacheAge s \<and>
   m_CachePath s' = m_CachePath s \<and> m_bInitialized s' = m_bInitialized s"
  by (auto simp: Flush_result split: option.splits if_splits)

lemma flush_each_inv:
  "cache_inv s \<Longrightarrow> flush_each ids b s fs = (r, s', fs') \<Longrightarrow> cache_inv s'"
proof (induction ids arbitrary: b s fs)
  case Nil
  then show ?case by simp
next
  case (Cons i ids)
  obtain r1 s1 fs1 where f: "Flush i s fs = (r1, s1, fs1)" by (cases "Flush i s fs") auto
  with Cons.prems have "flush_each ids (b \<or> r1) s1 fs1 = (r, s', fs')" by simp
  moreover have "cache_inv s1" using Flush_inv[OF Cons.prems(1) f] .
  ultimately show ?case using Cons.IH by blast
qed

lemma FlushAged_inv: "cache_inv s \<Longrightarrow> FlushAged now s fs = (r, s', fs') \<Longrightarrow> cache_inv s'"
  unfolding FlushAged_def Let_def by (rule flush_each_inv)

lemma FlushOldest_inv: "cache_inv s \<Longrightarrow> FlushOldest s fs = (r, s', fs') \<Longrightarrow> cache_inv s'"
  by (auto simp: FlushOldest_def split: option.splits dest: Flush_inv)

lemma FlushOldest_False: "FlushOldest s fs = (False, s', fs') \<Longrightarrow> s' = s \<and> fs' = fs"
  by (auto simp: FlushOldest_def split: option.splits dest: Flush_False)

lemma evict_loop_inv_aux:
  assumes "evict_loop s0 fs0 = Some y0"
  shows "cache_inv s0 \<longrightarrow> cache_inv (fst y0)"
proof (rule evict_loop.raw_induct[where P = "\<lambda>s fs y. cache_inv s \<longrightarrow> cache_inv (fst y)"])
  show "evict_loop s0 fs0 = Some y0" by fact
next
  fix evl s fs y
  assume IH: "\<And>s fs y. evl s fs = Some y \<Longrightarrow> cache_inv s \<longrightarrow> cache_inv (fst y)"
    and body: "(if m_MaxCacheSize s < m_CurrentCacheSize s
                then case FlushOldest s fs of (r, s', fs') \<Rightarrow> evl s' fs'
                else Some (s, fs)) = Some y"
  show "cache_inv s \<longrightarrow> cache_inv (fst y)"
  proof
    assume inv: "cache_inv s"
    show "cache_inv (fst y)"
    proof (cases "m_MaxCacheSize s < m_CurrentCacheSize s")
      case True
      obtain r s1 fs1 where f: "FlushOldest s fs = (r, s1, fs1)"
        by (cases "FlushOldest s fs") auto
      with True body have "evl s1 fs1 = Some y" by simp
      moreover have "cache_inv s1" using FlushOldest_inv[OF inv f] .
      ultimately show ?thesis using IH by blast
    next
      case False
      with body inv show ?thesis by auto
    qed
  qed
qed

lemma evict_loop_inv:
  "evict_loop s fs = Some (s', fs') \<Longrightarrow> cache_inv s \<Longrightarrow> cache_inv s'"
  using evict_loop_inv_aux[of s fs "(s', fs')"] by simp

lemma evict_loop_bound:
  assumes "evict_loop s0 fs0 = Some y0"
  shows "m_CurrentCacheSize (fst y0) \<le> m_MaxCacheSize (fst y0)"
proof (rule evict_loop.raw_induct[where P = "\<lambda>s fs y. m_CurrentCacheSize (fst y) \<le> m_MaxCacheSize (fst y)"])
  show "evict_loop s0 fs0 = Some y0" by fact
next
  fix evl s fs y
  assume IH: "\<And>s fs y. evl s fs = Some y \<Longrightarrow> m_CurrentCacheSize (fst y) \<le> m_MaxCacheSize (fst y)"
    and body: "(if m_MaxCacheSize s < m_CurrentCacheSize s
                then case FlushOldest s fs of (r, s', fs') \<Rightarrow> evl s' fs'
                else Some (s, fs)) = Some y"
  show "m_CurrentCacheSize (fst y) \<le> m_MaxCacheSize (fst y)"
  proof (cases "m_MaxCacheSize s < m_CurrentCacheSize s")
    case True
    obtain r s1 fs1 where f: "FlushOldest s fs = (r, s1, fs1)"
      by (cases "FlushOldest s fs") auto
    with True body have "evl s1 fs1 = Some y" by simp
    then show ?thesis using IH by blast
  next
    case False
    with body show ?thesis by auto
  qed
qed

lemma evict_loop_stuck_aux:
  assumes "evict_loop s0 fs0 = Some y0"
  shows "\<not> (m_MaxCacheSize s0 < m_CurrentCacheSize s0 \<and> \<not> fst (FlushOldest s0 fs0))"
proof (rule evict_loop.raw_induct[where P = "\<lambda>s fs y. \<not> (m_MaxCacheSize s < m_CurrentCacheSize s \<and> \<not> fst (FlushOldest s fs))"])
  show "evict_loop s0 fs0 = Some y0" by fact
next
  fix evl s fs y
  assume IH: "\<And>s fs y. evl s fs = Some y \<Longrightarrow>
                \<not> (m_MaxCacheSize s < m_CurrentCacheSize s \<and> \<not> fst (FlushOldest s fs))"
    and body: "(if m_MaxCacheSize s < m_CurrentCacheSize s
                then case FlushOldest s fs of (r, s', fs') \<Rightarrow> evl s' fs'
                else Some (s, fs)) = Some y"
  show "\<not> (m_MaxCacheSize s < m_CurrentCacheSize s \<and> \<not> fst (FlushOldest s fs))"
  proof
    assume stuck: "m_MaxCacheSize s < m_CurrentCacheSize s \<and> \<not> fst (FlushOldest s fs)"
    obtain s1 fs1 where f: "FlushOldest s fs = (False, s1, fs1)"
      using stuck by (cases "FlushOldest s fs") auto
    from FlushOldest_False[OF f] f have same: "FlushOldest s fs = (False, s, fs)" by simp
    with stuck body have "evl s fs = Some y" by simp
    from IH[OF this] stuck show False by simp
  qed
qed

lemma evict_loop_stuck:
  "m_MaxCacheSize s < m_CurrentCacheSize s \<Longrightarrow> \<not> fst (FlushOldest s fs) \<Longrightarrow>
   evict_loop s fs = None"
  using evict_loop_stuck_aux[of s fs] by (cases "evict_loop s fs") auto

subsection \<open>Flush\<close>

text \<open>
  Claim C5. When the key is present and deleting its backing file throws, \<open>Flush\<close>
  reports failure and the cache (the entry, the running total and everything else) and
  the file system are as before; when the key is absent, \<open>Flush\<close> reports failure and
  changes nothing either.
\<close>

theorem Flush_failure_atomic:
  "(map_of (m_Cache s) (Replace a_ID CHR ''/'' CHR ''_'') = Some item \<and>
    remove_file (m_Path item) fs = None
      \<longrightarrow> Flush a_ID s fs = (False, s, fs)) \<and>
   (map_of (m_Cache s) (Replace a_ID CHR ''/'' CHR ''_'') = None
      \<longrightarrow> Flush a_ID s fs = (False, s, fs))"
  by (simp add: Flush_def)

theorem Flush_failure_atomic_witness:
  "map_of (m_Cache cache_a) (Replace ''a'' CHR ''/'' CHR ''_'') = Some item_a \<and>
   remove_file (m_Path item_a) fs_locked = None \<and>
   Flush ''a'' cache_a fs_locked = (False, cache_a, fs_locked) \<and>
   map_of (m_Cache cache_a) (Replace ''x/y'' CHR ''/'' CHR ''_'') = None \<and>
   Flush ''x/y'' cache_a fs_locked = (False, cache_a, fs_locked)"
proof -
  have present: "map_of (m_Cache cache_a) (Replace ''a'' CHR ''/'' CHR ''_'') = Some item_a"
    by (simp add: cache_a_def Replace_def)
  have throws: "remove_file (m_Path item_a) fs_locked = None"
    by (simp add: remove_file_def item_a_def fs_locked_def)
  have absent: "map_of (m_Cache cache_a) (Replace ''x/y'' CHR ''/'' CHR ''_'') = None"
    by (simp add: cache_a_def Replace_def)
  show ?thesis
    using Flush_failure_atomic[of cache_a "''a''" item_a fs_locked]
      Flush_failure_atomic[of cache_a "''x/y''" item_a fs_locked] present throws absent
    by simp
qed

subsection \<open>Initialize\<close>

text \<open>
  Claim C10. When the cache path is not a directory and creating it throws,
  \<open>Initialize\<close> returns failure; by then it has set the initialized flag and stored the
  path, the maximum size and the maximum age, and it has not touched the index or the
  running total: the entries of an earlier initialization are still indexed. The file
  system is unchanged.
\<close>

theorem Initialize_mkdir_failure:
  assumes "\<not> is_directory a_CachePath fs"
    and "create_directories a_CachePath fs = None"
  shows "\<exists>s'. Initialize a_CachePath maxCacheSize maxCacheAge now s fs = (False, s', fs) \<and>
           m_bInitialized s' \<and> m_CachePath s' = a_CachePath \<and>
           m_MaxCacheSize s' = maxCacheSize \<and> m_MaxCacheAge s' = maxCacheAge \<and>
           m_Cache s' = m_Cache s \<and> m_CurrentCacheSize s' = m_CurrentCacheSize s"
  using assms by (simp add: Initialize_def)

theorem Initialize_mkdir_failure_witness:
  "\<not> is_directory ''/ro/cache/'' fs_nodir \<and>
   create_directories ''/ro/cache/'' fs_nodir = None \<and>
   (\<exists>s'. Initialize ''/ro/cache/'' 50 12 200 cache_a fs_nodir = (False, s', fs_nodir) \<and>
      m_bInitialized s' \<and> m_CachePath s' = ''/ro/cache/'' \<and>
      m_MaxCacheSize s' = 50 \<and> m_MaxCacheAge s' = 12 \<and>
      m_Cache s' = [(''a'', item_a)] \<and> m_CurrentCacheSize s' = 3)"
proof -
  have nodir: "\<not> is_directory ''/ro/cache/'' fs_nodir"
    by (simp add: is_directory_def fs_nodir_def fs_a_def dir_prefix_def)
  have throws: "create_directories ''/ro/cache/'' fs_nodir = None"
    by (simp add: create_directories_def fs_nodir_def)
  show ?thesis
    using Initialize_mkdir_failure[OF nodir throws, of 50 12 200 cache_a] nodir throws
    by (simp add: cache_a_def)
qed

subsection \<open>Flushing the entries of the index\<close>

lemma Replace_no_slash: "CHR ''/'' \<notin> set k \<Longrightarrow> Replace k CHR ''/'' CHR ''_'' = k"
  by (induction k) (auto simp: Replace_def)

lemma wf_map_lookup: "wf_map m \<Longrightarrow> (k, item) \<in> set m \<Longrightarrow> map_of m k = Some item"
  by (simp add: wf_map_distinct)

lemma Flush_entry:
  assumes "wf_map (m_Cache s)" "(k, item) \<in> set (m_Cache s)"
  shows "Flush (m_Id item) s fs =
           (if m_Path item \<in> set (fs_remove_throws fs) then (False, s, fs)
            else (True,
                  s\<lparr>m_CurrentCacheSize := m_CurrentCacheSize s - m_Size item,
                    m_Cache := cache_erase k (m_Cache s)\<rparr>,
                  fs\<lparr>fs_files := [e \<leftarrow> fs_files fs. fst e \<noteq> m_Path item]\<rparr>))"
proof -
  from assms have "m_Id item = k" "CHR ''/'' \<notin> set k"
    by (auto simp: wf_map_def)
  moreover have "map_of (m_Cache s) k = Some item"
    using assms by (rule wf_map_lookup)
  ultimately show ?thesis by (simp add: Flush_result Replace_no_slash)
qed

lemma erase_as_filter:
  assumes "wf_map m" "(k, item) \<in> set m"
  shows "cache_erase k m = [e \<leftarrow> m. e \<noteq> (k, item)]"
proof -
  have "(fst e \<noteq> k) = (e \<noteq> (k, item))" if "e \<in> set m" for e
    using that assms(2) wf_map_distinct[OF assms(1)]
    by (metis eq_key_imp_eq_value fst_conv prod.collapse)
  then show ?thesis unfolding cache_erase_def by (intro filter_cong refl)
qed

lemma flush_each_entries:
  assumes "wf_map (m_Cache s)" "set es \<subseteq> set (m_Cache s)" "distinct es"
    and "flush_each (map (\<lambda>e. m_Id (snd e)) es) b s fs = (b', s', fs')"
  shows "m_Cache s' = [e \<leftarrow> m_Cache s. \<not> (e \<in> set es \<and> m_Path (snd e) \<notin> set (fs_remove_throws fs))] \<and>
         b' = (b \<or> (\<exists>e \<in> set es. m_Path (snd e) \<notin> set (fs_remove_throws fs)))"
  using assms
proof (induction es arbitrary: b s fs)
  case Nil
  then show ?case by simp
next
  case (Cons e es)
  obtain k item where e: "e = (k, item)" by (cases e)
  have mem: "(k, item) \<in> set (m_Cache s)" using Cons.prems(2) e by simp
  note F = Flush_entry[OF Cons.prems(1) mem, of fs]
  show ?case
  proof (cases "m_Path item \<in> set (fs_remove_throws fs)")
    case True
    with F Cons.prems(4) e have "flush_each (map (\<lambda>e. m_Id (snd e)) es) b s fs = (b', s', fs')"
      by simp
    from Cons.IH[OF Cons.prems(1) _ _ this] Cons.prems(2,3)
    have "m_Cache s' = [x \<leftarrow> m_Cache s. \<not> (x \<in> set es \<and> m_Path (snd x) \<notin> set (fs_remove_throws fs))]"
      and "b' = (b \<or> (\<exists>x \<in> set es. m_Path (snd x) \<notin> set (fs_remove_throws fs)))"
      by auto
    with True e show ?thesis by (auto intro: filter_cong)
  next
    case False
    let ?s1 = "s\<lparr>m_CurrentCacheSize := m_CurrentCacheSize s - m_Size item,
                    m_Cache := cache_erase k (m_Cache s)\<rparr>"
    let ?fs1 = "fs\<lparr>fs_files := [e \<leftarrow> fs_files fs. fst e \<noteq> m_Path item]\<rparr>"
    from False F Cons.prems(4) e
    have run: "flush_each (map (\<lambda>e. m_Id (snd e)) es) True ?s1 ?fs1 = (b', s', fs')"
      by simp
    have er: "cache_erase k (m_Cache s) = [x \<leftarrow> m_Cache s. x \<noteq> (k, item)]"
      using Cons.prems(1) mem by (rule erase_as_filter)
    have wf1: "wf_map (m_Cache ?s1)" using Cons.prems(1) by (simp add: wf_map_erase)
    have sub1: "set es \<subseteq> set (m_Cache ?s1)"
      using Cons.prems(2,3) e by (auto simp: er)
    have d1: "distinct es" using Cons.prems(3) by simp
    from Cons.IH[OF wf1 sub1 d1 run]
    have "m_Cache s' = [x \<leftarrow> [x \<leftarrow> m_Cache s. x \<noteq> (k, item)].
                          \<not> (x \<in> set es \<and> m_Path (snd x) \<notin> set (fs_remove_throws fs))]"
      and "b'"
      by (simp_all add: er)
    with False e show ?thesis by (auto intro: filter_cong)
  qed
qed

lemma aged_ids:
  "[m_Id item. (k, item) \<leftarrow> m, aged now a item] =
   map (\<lambda>e. m_Id (snd e)) [e \<leftarrow> m. aged now a (snd e)]"
  by (induction m) auto

subsection \<open>FlushAged\<close>

text \<open>
  Claim C7, as amended. On a well-formed index, \<open>FlushAged\<close> removes exactly the
  entries whose age in hours, \<open>(now - m_Time) / 3600\<close>, is strictly greater than
  \<open>m_MaxCacheAge\<close> and whose backing file can be deleted; every younger entry stays,
  and so does an aged entry whose deletion throws (\<open>Flush\<close> leaves it, see C5). The
  result is true iff at least one entry was removed.
\<close>

theorem FlushAged_removes:
  assumes "wf_map (m_Cache s)" and "FlushAged now s fs = (b, s', fs')"
  shows "m_Cache s' =
           [e \<leftarrow> m_Cache s. \<not> (aged now (m_MaxCacheAge s) (snd e) \<and>
                                   m_Path (snd e) \<notin> set (fs_remove_throws fs))] \<and>
         b = (\<exists>e \<in> set (m_Cache s). aged now (m_MaxCacheAge s) (snd e) \<and>
                                     m_Path (snd e) \<notin> set (fs_remove_throws fs))"
proof -
  let ?es = "[e \<leftarrow> m_Cache s. aged now (m_MaxCacheAge s) (snd e)]"
  have run: "flush_each (map (\<lambda>e. m_Id (snd e)) ?es) False s fs = (b, s', fs')"
    using assms(2) by (simp add: FlushAged_def aged_ids)
  have d: "distinct ?es"
    using wf_map_distinct[OF assms(1)] by (simp add: distinct_map)
  from flush_each_entries[OF assms(1) _ d run]
  have A: "m_Cache s' = [e \<leftarrow> m_Cache s. \<not> (e \<in> set ?es \<and> m_Path (snd e) \<notin> set (fs_remove_throws fs))]"
    and B: "b = (False \<or> (\<exists>e \<in> set ?es. m_Path (snd e) \<notin> set (fs_remove_throws fs)))"
    by auto
  have "m_Cache s' =
           [e \<leftarrow> m_Cache s. \<not> (aged now (m_MaxCacheAge s) (snd e) \<and>
                                   m_Path (snd e) \<notin> set (fs_remove_throws fs))]"
    unfolding A by (rule filter_cong) auto
  moreover have "b = (\<exists>e \<in> set (m_Cache s). aged now (m_MaxCacheAge s) (snd e) \<and>
                                     m_Path (snd e) \<notin> set (fs_remove_throws fs))"
    unfolding B by force
  ultimately show ?thesis by blast
qed

theorem FlushAged_removes_witness:
  "wf_map (m_Cache cache_two) \<and>
   FlushAged 86550 cache_two fs_a =
     (True, cache_two\<lparr>m_CurrentCacheSize := 5, m_Cache := [(''b'', item_b)]\<rparr>,
      fs_a\<lparr>fs_files := []\<rparr>) \<and>
   [e \<leftarrow> m_Cache cache_two. \<not> (aged 86550 (m_MaxCacheAge cache_two) (snd e) \<and>
        m_Path (snd e) \<notin> set (fs_remove_throws fs_a))] = [(''b'', item_b)]"
proof -
  have wf: "wf_map (m_Cache cache_two)"
    by (simp add: wf_map_def cache_two_def item_a_def item_b_def)
  have run: "FlushAged 86550 cache_two fs_a =
     (True, cache_two\<lparr>m_CurrentCacheSize := 5, m_Cache := [(''b'', item_b)]\<rparr>,
      fs_a\<lparr>fs_files := []\<rparr>)"
    by (simp add: FlushAged_def aged_def Flush_result Replace_def cache_two_def cache_a_def
        item_a_def item_b_def fs_a_def cache_erase_def)
  from FlushAged_removes[OF wf run] wf run show ?thesis by simp
qed

text \<open>
  The claim as stated fails: an aged entry whose file cannot be deleted is not removed.
\<close>

theorem FlushAged_locked_counterexample:
  "aged 90100 (m_MaxCacheAge cache_a) item_a \<and>
   FlushAged 90100 cache_a fs_locked = (False, cache_a, fs_locked)"
  by (simp add: FlushAged_def aged_def Flush_result Replace_def cache_a_def item_a_def
      fs_locked_def fs_a_def)

subsection \<open>Save\<close>

lemma Save_result:
  "Save a_ID a_Data now s fs =
     (let id = Replace a_ID CHR ''/'' CHR ''_'' in
      case map_of (m_Cache s) id of
        Some old \<Rightarrow>
          if m_Path old \<in> set (fs_remove_throws fs) then Some (False, s, fs)
          else
            (let item = \<lparr>m_Path = m_CachePath s @ id @ ''.bytes'', m_Id = id, m_Time = now,
                          m_Size = of_nat (length a_Data), m_bLoaded = True, m_Data = a_Data\<rparr>
             in map_option (\<lambda>(s', fs'). (True, s', fs'))
                  (evict_loop
                     (s\<lparr>m_Cache := cache_put id item (m_Cache s),
                        m_CurrentCacheSize := m_CurrentCacheSize s - m_Size old + m_Size item\<rparr>)
                     (write_file (m_Path item) a_Data now
                        (fs\<lparr>fs_files := [e \<leftarrow> fs_files fs. fst e \<noteq> m_Path old]\<rparr>))))
      | None \<Rightarrow>
          (let item = \<lparr>m_Path = m_CachePath s @ id @ ''.bytes'', m_Id = id, m_Time = now,
                        m_Size = of_nat (length a_Data), m_bLoaded = True, m_Data = a_Data\<rparr>
           in map_option (\<lambda>(s', fs'). (True, s', fs'))
                (evict_loop
                   (s\<lparr>m_Cache := cache_put id item (m_Cache s),
                      m_CurrentCacheSize := m_CurrentCacheSize s + m_Size item\<rparr>)
                   (write_file (m_Path item) a_Data now fs))))"
proof -
  have put: "cache_put k v (cache_erase k m) = cache_put k v m" for k v and m :: CacheMap
  proof -
    have "[e \<leftarrow> m. fst e \<noteq> k \<and> fst e < k] = [e \<leftarrow> m. fst e < k]"
      by (rule filter_cong) auto
    moreover have "[e \<leftarrow> m. fst e \<noteq> k \<and> k < fst e] = [e \<leftarrow> m. k < fst e]"
      by (rule filter_cong) auto
    ultimately show ?thesis by (simp add: cache_put_def cache_erase_def)
  qed
  show ?thesis
    by (cases "map_of (m_Cache s) (Replace a_ID CHR ''/'' CHR ''_'')")
       (simp_all add: Save_def Flush_result Replace_idem Let_def cache_at_def CacheItem_new_def
         map_of_cache_erase put)
qed

text \<open>
  Claim C4, as amended. \<open>Save\<close> returns failure exactly when an entry with the same key
  is indexed and deleting its backing file throws; cache and file system are then as
  before. The stream that writes the new backing file is never checked.
\<close>

theorem Save_failure_iff:
  "Save a_ID a_Data now s fs = Some (False, s', fs') \<longleftrightarrow>
     s' = s \<and> fs' = fs \<and>
     (\<exists>item. map_of (m_Cache s) (Replace a_ID CHR ''/'' CHR ''_'') = Some item \<and>
             remove_file (m_Path item) fs = None)"
  by (cases "map_of (m_Cache s) (Replace a_ID CHR ''/'' CHR ''_'')")
     (auto simp: Save_result Let_def remove_file_def split: if_splits)

theorem Save_failure_iff_witness:
  "Save ''a'' ''zz'' 200 cache_a fs_locked = Some (False, cache_a, fs_locked)"
  using Save_failure_iff[of "''a''" "''zz''" 200 cache_a fs_locked cache_a fs_locked]
  by (simp add: cache_a_def Replace_def remove_file_def fs_locked_def item_a_def)

text \<open>
  The claim as stated fails: the backing file cannot be written (nothing reaches the
  file system), and \<open>Save\<close> returns success.
\<close>

theorem Save_write_failure_counterexample:
  "m_CachePath cache_a @ Replace ''b'' CHR ''/'' CHR ''_'' @ ''.bytes'' \<in> set (fs_write_fails fs_nowrite) \<and>
   Save ''b'' ''hello'' 200 cache_a fs_nowrite =
     Some (True, cache_a\<lparr>m_CurrentCacheSize := 8, m_Cache := [(''a'', item_a), (''b'', item_b)]\<rparr>,
           fs_nowrite)"
  by (simp add: Save_result Replace_def cache_a_def fs_nowrite_def fs_a_def item_a_def item_b_def
      cache_put_def write_file_def evict_loop.simps Let_def)

subsection \<open>The eviction loop of Save\<close>

lemma oldest_Some: "p \<noteq> None \<or> m \<noteq> [] \<Longrightarrow> oldest p m \<noteq> None"
  by (induction p m rule: oldest.induct) (auto split: option.splits)

lemma oldest_mem: "oldest p m = Some item \<Longrightarrow> p = Some item \<or> (\<exists>k. (k, item) \<in> set m)"
  by (induction p m rule: oldest.induct) (auto split: option.splits if_splits)

lemma erase_shorter: "(k, item) \<in> set m \<Longrightarrow> length (cache_erase k m) < length m"
  unfolding cache_erase_def by (induction m) (auto simp: less_Suc_eq_le)

lemma FlushOldest_progress:
  assumes "wf_map (m_Cache s)" "m_Cache s \<noteq> []"
    and "\<forall>e \<in> set (m_Cache s). m_Path (snd e) \<notin> set (fs_remove_throws fs)"
  shows "\<exists>s' fs'. FlushOldest s fs = (True, s', fs') \<and>
           length (m_Cache s') < length (m_Cache s) \<and>
           set (m_Cache s') \<subseteq> set (m_Cache s) \<and>
           fs_remove_throws fs' = fs_remove_throws fs"
proof -
  from oldest_Some[of None "m_Cache s"] assms(2)
  obtain item where old: "oldest None (m_Cache s) = Some item" by auto
  from oldest_mem[OF old] obtain k where mem: "(k, item) \<in> set (m_Cache s)" by auto
  from assms(3) mem have del: "m_Path item \<notin> set (fs_remove_throws fs)" by force
  show ?thesis
    using old del Flush_entry[OF assms(1) mem, of fs] erase_shorter[OF mem]
    by (auto simp: FlushOldest_def cache_erase_def)
qed

lemma evict_loop_returns:
  assumes "cache_inv s"
    and "\<forall>e \<in> set (m_Cache s). m_Path (snd e) \<notin> set (fs_remove_throws fs)"
  shows "\<exists>y. evict_loop s fs = Some y"
  using assms
proof (induction "length (m_Cache s)" arbitrary: s fs rule: less_induct)
  case less
  show ?case
  proof (cases "m_MaxCacheSize s < m_CurrentCacheSize s")
    case False
    then show ?thesis by (subst evict_loop.simps) simp
  next
    case True
    then have "m_CurrentCacheSize s \<noteq> 0" by (auto simp: word_gt_0)
    with less.prems(1) have ne: "m_Cache s \<noteq> []"
      by (auto simp: cache_inv_def size_inv_def total_def)
    from less.prems(1) have wf: "wf_map (m_Cache s)" by (simp add: cache_inv_def)
    from FlushOldest_progress[OF wf ne less.prems(2)]
    obtain s' fs' where f: "FlushOldest s fs = (True, s', fs')"
      and len: "length (m_Cache s') < length (m_Cache s)"
      and sub: "set (m_Cache s') \<subseteq> set (m_Cache s)"
      and thr: "fs_remove_throws fs' = fs_remove_throws fs"
      by blast
    have inv': "cache_inv s'" using FlushOldest_inv[OF less.prems(1) f] .
    have del': "\<forall>e \<in> set (m_Cache s'). m_Path (snd e) \<notin> set (fs_remove_throws fs')"
      using less.prems(2) sub thr by auto
    from less.hyps[OF len inv' del'] obtain y where "evict_loop s' fs' = Some y" ..
    with True f show ?thesis by (subst evict_loop.simps) simp
  qed
qed

text \<open>
  Claim C3 at a concrete input. The limit is 4 bytes, the entry \<open>a\<close> (3 bytes) is indexed
  and its file cannot be deleted. Saving 5 bytes under \<open>b\<close> brings the total to 8; the
  loop picks \<open>a\<close> as the oldest, \<open>Flush\<close> fails and removes nothing, and the loop
  repeats on the same state: \<open>Save\<close> does not return, although the index holds entries.
\<close>

theorem Save_eviction_never_returns:
  "m_Cache cache_small \<noteq> [] \<and> Save ''b'' ''hello'' 200 cache_small fs_locked = None"
proof -
  let ?s = "cache_small\<lparr>m_CurrentCacheSize := 8, m_Cache := [(''a'', item_a), (''b'', item_b)]\<rparr>"
  have over: "m_MaxCacheSize ?s < m_CurrentCacheSize ?s"
    by (simp add: cache_small_def cache_a_def)
  let ?fs = "fs_locked\<lparr>fs_files := fs_files fs_locked @ [(''/tmp/c/b.bytes'', \<lparr>f_data = ''hello'', f_time = 200\<rparr>)]\<rparr>"
  have fail: "\<not> fst (FlushOldest ?s ?fs)"
    by (simp add: FlushOldest_def Flush_result Replace_def item_a_def item_b_def fs_locked_def
        cache_small_def cache_a_def)
  have "evict_loop ?s ?fs = None"
    using over fail by (rule evict_loop_stuck)
  then show ?thesis
    by (simp add: Save_result Replace_def cache_small_def cache_a_def fs_locked_def fs_a_def
        item_a_def item_b_def cache_put_def write_file_def Let_def)
qed

subsection \<open>The running total\<close>

text \<open>
  \<open>cache_inv\<close> (a well-formed index whose sizes add up to the running total) is kept by
  \<open>Flush\<close>, \<open>FlushAged\<close>, \<open>FlushOldest\<close> and the eviction loop (above), by \<open>Find\<close>
  with its size correction, \<open>Save\<close>, \<open>FlushAll\<close> and \<open>Uninitialize\<close>, and by
  \<open>Initialize\<close> when no two regular files of the directory have the same stem.
\<close>

lemma Replace_has_no_slash: "CHR ''/'' \<notin> set (Replace x CHR ''/'' CHR ''_'')"
  by (induction x) (auto simp: Replace_def)

lemma wf_map_entry:
  "wf_map m \<Longrightarrow> map_of m k = Some item \<Longrightarrow> m_Id item = k \<and> CHR ''/'' \<notin> set k"
  by (fastforce simp: wf_map_def dest: map_of_SomeD)

lemma total_put:
  "wf_map m \<Longrightarrow>
   total (cache_put k v m) =
     (case map_of m k of None \<Rightarrow> total m | Some old \<Rightarrow> total m - m_Size old) + m_Size v"
  by (auto simp: total_put_erase total_erase total_erase_absent wf_map_distinct
      split: option.splits)

lemma Find_inv:
  assumes "cache_inv s" "Find a_ID s fs = (r, s')"
  shows "cache_inv s'"
proof (cases "map_of (m_Cache s) (Replace a_ID CHR ''/'' CHR ''_'')")
  case None
  with assms show ?thesis by (simp add: Find_def)
next
  case (Some item)
  let ?id = "Replace a_ID CHR ''/'' CHR ''_''"
  from assms(1) have wf: "wf_map (m_Cache s)" and sz: "m_CurrentCacheSize s = total (m_Cache s)"
    by (simp_all add: cache_inv_def size_inv_def)
  from wf_map_entry[OF wf Some] have id: "m_Id item = ?id" "CHR ''/'' \<notin> set ?id" by simp_all
  let ?d = "read_file (m_Path item) fs"
  have up: "m_CurrentCacheSize s + of_nat (length ?d - unat (m_Size item)) =
            total (m_Cache s) - m_Size item + of_nat (length ?d)"
    if "unat (m_Size item) < length ?d"
    using that sz by (simp add: of_nat_diff)
  have down: "m_CurrentCacheSize s - of_nat (unat (m_Size item) - length ?d) =
            total (m_Cache s) - m_Size item + of_nat (length ?d)"
    if "\<not> unat (m_Size item) < length ?d"
    using that sz by (simp add: of_nat_diff)
  have same: "of_nat (length ?d) = m_Size item" if "length ?d = unat (m_Size item)"
    using that by simp
  show ?thesis
    using assms(2) Some wf sz id up down same
    by (auto simp: Find_def Let_def cache_inv_def size_inv_def wf_map_put total_put
        split: if_splits)
qed

lemma FlushAll_inv: "FlushAll s fs = (r, s', fs') \<Longrightarrow> cache_inv s'"
  by (auto simp: FlushAll_def cache_inv_def size_inv_def wf_map_def total_def)

lemma Uninitialize_inv: "cache_inv (Uninitialize s)"
  by (simp add: Uninitialize_def cache_inv_def size_inv_def wf_map_def total_def)

lemma Save_inv:
  assumes "cache_inv s" "Save a_ID a_Data now s fs = Some (r, s', fs')"
  shows "cache_inv s'"
proof -
  let ?id = "Replace a_ID CHR ''/'' CHR ''_''"
  let ?item = "\<lparr>m_Path = m_CachePath s @ ?id @ ''.bytes'', m_Id = ?id, m_Time = now,
                 m_Size = of_nat (length a_Data), m_bLoaded = True, m_Data = a_Data\<rparr>"
  from assms(1) have wf: "wf_map (m_Cache s)" and sz: "m_CurrentCacheSize s = total (m_Cache s)"
    by (simp_all add: cache_inv_def size_inv_def)
  have wf': "wf_map (cache_put ?id ?item (m_Cache s))"
    using wf by (simp add: wf_map_put Replace_has_no_slash)
  show ?thesis
  proof (cases "map_of (m_Cache s) ?id")
    case None
    let ?s3 = "s\<lparr>m_Cache := cache_put ?id ?item (m_Cache s),
                  m_CurrentCacheSize := m_CurrentCacheSize s + m_Size ?item\<rparr>"
    have "cache_inv ?s3"
      using wf' wf sz None by (simp add: cache_inv_def size_inv_def total_put)
    moreover from assms(2) None obtain fs2 where "evict_loop ?s3 fs2 = Some (s', fs')"
      by (auto simp: Save_result Let_def)
    ultimately show ?thesis by (rule evict_loop_inv[rotated])
  next
    case (Some old)
    show ?thesis
    proof (cases "m_Path old \<in> set (fs_remove_throws fs)")
      case True
      with assms Some show ?thesis by (simp add: Save_result Let_def)
    next
      case False
      let ?s3 = "s\<lparr>m_Cache := cache_put ?id ?item (m_Cache s),
                    m_CurrentCacheSize := m_CurrentCacheSize s - m_Size old + m_Size ?item\<rparr>"
      have "cache_inv ?s3"
        using wf' wf sz Some by (simp add: cache_inv_def size_inv_def total_put)
      moreover from assms(2) Some False obtain fs2 where "evict_loop ?s3 fs2 = Some (s', fs')"
        by (auto simp: Save_result Let_def)
      ultimately show ?thesis by (rule evict_loop_inv[rotated])
    qed
  qed
qed

lemma filename_no_slash: "CHR ''/'' \<notin> set (filename p)"
  by (auto simp: filename_def dest: set_takeWhileD)

lemma stem_no_slash: "CHR ''/'' \<notin> set (stem p)"
proof -
  have "set (stem p) \<subseteq> set (filename p)"
    by (auto simp: stem_def Let_def dest!: list.set_sel(2)[rotated] set_dropWhileD)
  with filename_no_slash[of p] show ?thesis by auto
qed

lemma scan_entry_inv:
  assumes "cache_inv s" "snd e \<longrightarrow> map_of (m_Cache s) (stem (fst e)) = None"
  shows "cache_inv (scan_entry fs e s)"
proof (cases "snd e")
  case False
  with assms show ?thesis by (simp add: scan_entry_def)
next
  case True
  from assms(1) have wf: "wf_map (m_Cache s)" and sz: "m_CurrentCacheSize s = total (m_Cache s)"
    by (simp_all add: cache_inv_def size_inv_def)
  from True assms(2) have fresh: "map_of (m_Cache s) (stem (fst e)) = None" by simp
  show ?thesis
    using True wf sz fresh
    by (auto simp: scan_entry_def Let_def cache_at_def CacheItem_new_def cache_inv_def size_inv_def
        wf_map_put total_put stem_no_slash split: option.splits)
qed

lemma scan_entry_keys:
  "fst ` set (m_Cache (scan_entry fs e s)) \<subseteq> insert (stem (fst e)) (fst ` set (m_Cache s))"
  by (auto simp: scan_entry_def Let_def cache_put_def split: option.splits)

lemma scan_fold_inv:
  assumes "cache_inv s"
    and "distinct (map (\<lambda>e. stem (fst e)) [e \<leftarrow> es. snd e])"
    and "\<forall>e \<in> set es. snd e \<longrightarrow> stem (fst e) \<notin> fst ` set (m_Cache s)"
  shows "cache_inv (fold (scan_entry fs) es s)"
  using assms
proof (induction es arbitrary: s)
  case Nil
  then show ?case by simp
next
  case (Cons e es)
  have fresh: "snd e \<longrightarrow> map_of (m_Cache s) (stem (fst e)) = None"
    using Cons.prems(3) by (auto simp: map_of_eq_None_iff)
  have inv1: "cache_inv (scan_entry fs e s)"
    using Cons.prems(1) fresh by (rule scan_entry_inv)
  have d: "distinct (map (\<lambda>e. stem (fst e)) [e \<leftarrow> es. snd e])"
    using Cons.prems(2) by (auto split: if_splits)
  have "\<forall>x \<in> set es. snd x \<longrightarrow> stem (fst x) \<notin> fst ` set (m_Cache (scan_entry fs e s))"
  proof (intro ballI impI)
    fix x assume x: "x \<in> set es" "snd x"
    with Cons.prems(3) have a: "stem (fst x) \<notin> fst ` set (m_Cache s)" by simp
    have b: "stem (fst x) \<noteq> stem (fst e)" if "snd e"
      using that x Cons.prems(2) by (cases x) (auto simp: image_iff)
    have c: "m_Cache (scan_entry fs e s) = m_Cache s" if "\<not> snd e"
      using that by (simp add: scan_entry_def)
    show "stem (fst x) \<notin> fst ` set (m_Cache (scan_entry fs e s))"
      using a b c scan_entry_keys[of fs e s] by (cases "snd e") auto
  qed
  with Cons.IH[OF inv1 d] show ?case by simp
qed

lemma regular_entries:
  "[e \<leftarrow> directory_iterator d fs. snd e] =
   [(p, True). (p, f) \<leftarrow> fs_files fs, directly_under (dir_prefix d) p]"
proof -
  have A: "filter snd [(p, True). (p, f) \<leftarrow> xs, P p] = [(p, True). (p, f) \<leftarrow> xs, P p]"
    for P and xs :: "(string \<times> fs_file) list"
    by (induction xs) auto
  have B: "filter snd [(p, False). p \<leftarrow> ys, P p] = []" for P and ys :: "string list"
    by (induction ys) auto
  show ?thesis unfolding directory_iterator_def filter_append A B by simp
qed

lemma Initialize_inv:
  assumes "cache_inv s"
    and "distinct (map (\<lambda>e. stem (fst e)) [e \<leftarrow> directory_iterator a_CachePath fs. snd e])"
    and "Initialize a_CachePath maxCacheSize maxCacheAge now s fs = (r, s', fs')"
  shows "cache_inv s'"
proof (cases "\<not> is_directory a_CachePath fs \<and> create_directories a_CachePath fs = None")
  case True
  with assms(1,3) show ?thesis
    by (auto simp: Initialize_def cache_inv_def size_inv_def)
next
  case False
  let ?s1 = "s\<lparr>m_bInitialized := True, m_CachePath := a_CachePath,
                 m_MaxCacheSize := maxCacheSize, m_MaxCacheAge := maxCacheAge\<rparr>"
  let ?s2 = "?s1\<lparr>m_Cache := [], m_CurrentCacheSize := 0\<rparr>"
  from False obtain fs1 where fs1:
    "(if \<not> is_directory a_CachePath fs then create_directories a_CachePath fs else Some fs) = Some fs1"
    by (cases "is_directory a_CachePath fs"; cases "create_directories a_CachePath fs") auto
  then have files: "fs_files fs1 = fs_files fs"
    by (auto simp: create_directories_def split: if_splits)
  have reg: "[e \<leftarrow> directory_iterator a_CachePath fs1. snd e] =
             [e \<leftarrow> directory_iterator a_CachePath fs. snd e]"
    by (simp add: regular_entries files)
  have inv2: "cache_inv ?s2"
    by (simp add: cache_inv_def size_inv_def wf_map_def total_def)
  have inv3: "cache_inv (fold (scan_entry fs1) (directory_iterator a_CachePath fs1) ?s2)"
    using inv2 by (rule scan_fold_inv) (simp_all add: reg assms(2))
  obtain b s4 fs2 where
    fa: "FlushAged now (fold (scan_entry fs1) (directory_iterator a_CachePath fs1) ?s2) fs1 = (b, s4, fs2)"
    by (metis prod_cases3)
  from assms(3) fs1 fa have "s' = s4"
    by (simp add: Initialize_def Let_def)
  with FlushAged_inv[OF inv3 fa] show ?thesis by simp
qed

text \<open>
  Claim C2 at a concrete input. The cache directory holds two regular files with the same
  stem, \<open>x.bytes\<close> (3 bytes) and \<open>x.tmp\<close> (4 bytes). The scan of \<open>Initialize\<close> finds
  the entry \<open>x\<close> twice through \<open>m_Cache[id]\<close>, overwrites its size and adds both sizes:
  the running total is 7, the one indexed entry has size 4. The state before satisfied
  the invariant.
\<close>

theorem Initialize_duplicate_stems:
  "size_inv DataCache_new \<and>
   Initialize ''/tmp/c'' 100 24 30 DataCache_new fs_dup =
     (True,
      \<lparr>m_bInitialized = True, m_CachePath = ''/tmp/c'', m_MaxCacheSize = 100,
       m_MaxCacheAge = 24, m_CurrentCacheSize = 7,
       m_Cache = [(''x'', \<lparr>m_Path = ''/tmp/c/x.tmp'', m_Id = ''x'', m_Time = 20, m_Size = 4,
                            m_bLoaded = False, m_Data = []\<rparr>)]\<rparr>,
      fs_dup) \<and>
   total [(''x'', \<lparr>m_Path = ''/tmp/c/x.tmp'', m_Id = ''x'', m_Time = 20, m_Size = 4,
                    m_bLoaded = False, m_Data = []\<rparr>)] = 4 \<and>
   \<not> size_inv (fst (snd (Initialize ''/tmp/c'' 100 24 30 DataCache_new fs_dup)))"
  by (simp add: size_inv_def total_def Initialize_def DataCache_new_def is_directory_def
      directory_iterator_def fs_dup_def directly_under_def dir_prefix_def scan_entry_def stem_def
      filename_def cache_at_def cache_put_def CacheItem_new_def last_write_time_def
      file_size_def FlushAged_def aged_def Let_def)

subsection \<open>Where Save puts the backing file\<close>

text \<open>
  The path is \<open>m_CachePath + id + ".bytes"\<close>, a plain concatenation. When the cache path
  ends with a separator the file is directly under the cache directory and is named
  \<open><sanitizedId>.bytes\<close>.
\<close>

lemma backing_path_flat:
  assumes "d \<noteq> []" "last d = CHR ''/''"
  shows "directly_under (dir_prefix d) (d @ Replace a_ID CHR ''/'' CHR ''_'' @ ''.bytes'') \<and>
         filename (d @ Replace a_ID CHR ''/'' CHR ''_'' @ ''.bytes'') =
           Replace a_ID CHR ''/'' CHR ''_'' @ ''.bytes''"
proof -
  let ?n = "Replace a_ID CHR ''/'' CHR ''_'' @ ''.bytes''"
  have ns: "CHR ''/'' \<notin> set ?n" using Replace_has_no_slash[of a_ID] by simp
  obtain d' where d: "d = d' @ ''/''" using assms by (metis append_butlast_last_id)
  have "takeWhile (\<lambda>c. c \<noteq> CHR ''/'') (rev ?n @ CHR ''/'' # rev d') = rev ?n"
    using ns by (subst takeWhile_append2) auto
  then have "filename (d @ ?n) = ?n"
    by (simp add: filename_def d)
  moreover have "directly_under (dir_prefix d) (d @ ?n)"
    using assms ns by (simp add: directly_under_def dir_prefix_def)
  ultimately show ?thesis by simp
qed

text \<open>
  Claim C6 at a concrete input, the scenario of the specification:
  \<open>Initialize("/tmp/c", 100, 24)\<close> on an empty directory, then \<open>Save("a/b", "hello")\<close>.
  The key is \<open>a_b\<close>, but the file written is \<open>/tmp/ca_b.bytes\<close>: it is an entry of
  \<open>/tmp\<close>, next to the cache directory, and a scan of \<open>/tmp/c\<close> does not find it.
\<close>

theorem Save_path_outside_directory:
  "(case Initialize ''/tmp/c'' 100 24 0 DataCache_new fs_empty of
      (ok, s0, fs0) \<Rightarrow> Save ''a/b'' ''hello'' 1 s0 fs0) =
     Some (True,
       \<lparr>m_bInitialized = True, m_CachePath = ''/tmp/c'', m_MaxCacheSize = 100,
        m_MaxCacheAge = 24, m_CurrentCacheSize = 5,
        m_Cache = [(''a_b'', \<lparr>m_Path = ''/tmp/ca_b.bytes'', m_Id = ''a_b'', m_Time = 1,
                              m_Size = 5, m_bLoaded = True, m_Data = ''hello''\<rparr>)]\<rparr>,
       fs_empty\<lparr>fs_files := [(''/tmp/ca_b.bytes'', \<lparr>f_data = ''hello'', f_time = 1\<rparr>)]\<rparr>) \<and>
   directory_iterator ''/tmp/c''
     (fs_empty\<lparr>fs_files := [(''/tmp/ca_b.bytes'', \<lparr>f_data = ''hello'', f_time = 1\<rparr>)]\<rparr>) = [] \<and>
   directory_iterator ''/tmp''
     (fs_empty\<lparr>fs_files := [(''/tmp/ca_b.bytes'', \<lparr>f_data = ''hello'', f_time = 1\<rparr>)]\<rparr>) =
     [(''/tmp/ca_b.bytes'', True), (''/tmp/c'', False)]"
  by (simp add: Initialize_def DataCache_new_def is_directory_def
      directory_iterator_def fs_empty_def directly_under_def dir_prefix_def
      FlushAged_def Save_result Replace_def cache_put_def write_file_def evict_loop.simps Let_def)

subsection \<open>Find after Save\<close>

lemma Flush_only_erases:
  "Flush a_ID s fs = (r, s', fs') \<Longrightarrow> map_of (m_Cache s') k = Some it \<Longrightarrow>
   map_of (m_Cache s) k = Some it"
  by (auto simp: Flush_result map_of_cache_erase split: option.splits if_splits)

lemma flush_each_only_erases:
  "flush_each ids b s fs = (r, s', fs') \<Longrightarrow> map_of (m_Cache s') k = Some it \<Longrightarrow>
   map_of (m_Cache s) k = Some it"
proof (induction ids arbitrary: b s fs)
  case Nil
  then show ?case by simp
next
  case (Cons i ids)
  obtain r1 s1 fs1 where f: "Flush i s fs = (r1, s1, fs1)" by (cases "Flush i s fs") auto
  with Cons.prems have "flush_each ids (b \<or> r1) s1 fs1 = (r, s', fs')" by simp
  from Cons.IH[OF this Cons.prems(2)] have "map_of (m_Cache s1) k = Some it" .
  with f show ?case by (rule Flush_only_erases)
qed

lemma FlushAged_only_erases:
  "FlushAged now s fs = (r, s', fs') \<Longrightarrow> map_of (m_Cache s') k = Some it \<Longrightarrow>
   map_of (m_Cache s) k = Some it"
  unfolding FlushAged_def Let_def by (rule flush_each_only_erases)

lemma FlushOldest_only_erases:
  "FlushOldest s fs = (r, s', fs') \<Longrightarrow> map_of (m_Cache s') k = Some it \<Longrightarrow>
   map_of (m_Cache s) k = Some it"
  by (auto simp: FlushOldest_def split: option.splits dest: Flush_only_erases)

lemma evict_loop_only_erases_aux:
  assumes "evict_loop s0 fs0 = Some y0"
  shows "map_of (m_Cache (fst y0)) k = Some it \<longrightarrow> map_of (m_Cache s0) k = Some it"
proof (rule evict_loop.raw_induct[where
      P = "\<lambda>s fs y. map_of (m_Cache (fst y)) k = Some it \<longrightarrow> map_of (m_Cache s) k = Some it"])
  show "evict_loop s0 fs0 = Some y0" by fact
next
  fix evl s fs y
  assume IH: "\<And>s fs y. evl s fs = Some y \<Longrightarrow>
                 map_of (m_Cache (fst y)) k = Some it \<longrightarrow> map_of (m_Cache s) k = Some it"
    and body: "(if m_MaxCacheSize s < m_CurrentCacheSize s
                then case FlushOldest s fs of (r, s', fs') \<Rightarrow> evl s' fs'
                else Some (s, fs)) = Some y"
  show "map_of (m_Cache (fst y)) k = Some it \<longrightarrow> map_of (m_Cache s) k = Some it"
  proof (cases "m_MaxCacheSize s < m_CurrentCacheSize s")
    case True
    obtain r s1 fs1 where f: "FlushOldest s fs = (r, s1, fs1)"
      by (cases "FlushOldest s fs") auto
    with True body have "evl s1 fs1 = Some y" by simp
    from IH[OF this] FlushOldest_only_erases[OF f] show ?thesis by blast
  next
    case False
    with body show ?thesis by auto
  qed
qed

lemma evict_loop_only_erases:
  "evict_loop s fs = Some (s', fs') \<Longrightarrow> map_of (m_Cache s') k = Some it \<Longrightarrow>
   map_of (m_Cache s) k = Some it"
  using evict_loop_only_erases_aux[of s fs "(s', fs')" k it] by simp

lemma Save_entry:
  assumes "Save a_ID a_Data now s fs = Some (True, s', fs')"
    and "map_of (m_Cache s') k = Some it"
  shows "if k = Replace a_ID CHR ''/'' CHR ''_''
         then it = \<lparr>m_Path = m_CachePath s @ k @ ''.bytes'', m_Id = k, m_Time = now,
                     m_Size = of_nat (length a_Data), m_bLoaded = True, m_Data = a_Data\<rparr>
         else map_of (m_Cache s) k = Some it"
proof -
  let ?id = "Replace a_ID CHR ''/'' CHR ''_''"
  let ?item = "\<lparr>m_Path = m_CachePath s @ ?id @ ''.bytes'', m_Id = ?id, m_Time = now,
                 m_Size = of_nat (length a_Data), m_bLoaded = True, m_Data = a_Data\<rparr>"
  from assms(1) obtain cur fs2 where
    "evict_loop (s\<lparr>m_Cache := cache_put ?id ?item (m_Cache s), m_CurrentCacheSize := cur\<rparr>) fs2
       = Some (s', fs')"
    by (auto simp: Save_result Let_def split: option.splits if_splits)
  from evict_loop_only_erases[OF this assms(2)]
  have "map_of (cache_put ?id ?item (m_Cache s)) k = Some it" by simp
  then show ?thesis by (auto simp: map_of_cache_put split: if_splits)
qed

lemma Save_False_unchanged:
  "Save a_ID a_Data now s fs = Some (False, s', fs') \<Longrightarrow> s' = s \<and> fs' = fs"
  by (cases "map_of (m_Cache s) (Replace a_ID CHR ''/'' CHR ''_'')")
     (auto simp: Save_result Let_def split: if_splits)

lemma Find_entry:
  assumes "Find a_ID s fs = (r, s')" "map_of (m_Cache s') k = Some it'"
  shows "\<exists>it. map_of (m_Cache s) k = Some it \<and> (m_bLoaded it \<longrightarrow> it' = it)"
  using assms
  by (auto simp: Find_def Let_def map_of_cache_put split: option.splits if_splits)

lemma Find_loaded:
  "map_of (m_Cache s) (Replace a_ID CHR ''/'' CHR ''_'') = Some it \<Longrightarrow> m_bLoaded it \<Longrightarrow>
   Find a_ID s fs = (Some it, s)"
  by (simp add: Find_def)

lemma exec_entry:
  assumes "leaves_key k c" "exec c (s, fs) = Some (s', fs')" "map_of (m_Cache s') k = Some it'"
  shows "\<exists>it. map_of (m_Cache s) k = Some it \<and> (m_bLoaded it \<longrightarrow> it' = it)"
proof (cases c)
  case (OpFind i)
  with assms show ?thesis by (cases "Find i s fs") (auto dest: Find_entry)
next
  case (OpSave i d now)
  with assms(2) obtain r where sv: "Save i d now s fs = Some (r, s', fs')" by auto
  show ?thesis
  proof (cases r)
    case True
    with sv Save_entry[of i d now s fs s' fs' k it'] assms(1,3) OpSave show ?thesis by auto
  next
    case False
    with sv have "s' = s" by (auto dest: Save_False_unchanged)
    with assms(3) show ?thesis by simp
  qed
next
  case (OpFlush i)
  with assms show ?thesis by (cases "Flush i s fs") (auto dest: Flush_only_erases)
next
  case (OpFlushAged now)
  with assms show ?thesis by (cases "FlushAged now s fs") (auto dest: FlushAged_only_erases)
next
  case OpFlushOldest
  with assms show ?thesis by (cases "FlushOldest s fs") (auto dest: FlushOldest_only_erases)
next
  case OpFlushAll
  with assms show ?thesis by (auto simp: FlushAll_def)
next
  case (OpInitialize p ms ma now)
  with assms show ?thesis by simp
next
  case OpUninitialize
  with assms show ?thesis by (auto simp: Uninitialize_def)
qed

lemma run_entry:
  assumes "\<forall>c \<in> set cs. leaves_key k c" "run cs (s, fs) = Some (s', fs')"
    "map_of (m_Cache s') k = Some it'"
  shows "\<exists>it. map_of (m_Cache s) k = Some it \<and> (m_bLoaded it \<longrightarrow> it' = it)"
  using assms
proof (induction cs arbitrary: s fs)
  case Nil
  then show ?case by simp
next
  case (Cons c cs)
  from Cons.prems(2) obtain s1 fs1 where e: "exec c (s, fs) = Some (s1, fs1)"
    and r: "run cs (s1, fs1) = Some (s', fs')"
    by (auto split: option.splits)
  from Cons.prems(1) have lk: "leaves_key k c" and rest: "\<forall>c \<in> set cs. leaves_key k c" by auto
  from Cons.IH[OF rest r Cons.prems(3)] obtain it1
    where it1: "map_of (m_Cache s1) k = Some it1" "m_bLoaded it1 \<longrightarrow> it' = it1" by blast
  from exec_entry[OF lk e it1(1)] obtain it
    where it: "map_of (m_Cache s) k = Some it" "m_bLoaded it \<longrightarrow> it1 = it" by blast
  with it1 show ?case by auto
qed

text \<open>
  Claim C1. After \<open>Save(id, data)\<close> has returned success, and after any further operations
  that do not save under the same key again or re-initialize the cache, as long as the key
  has not been flushed or evicted (by the eviction loop of that very \<open>Save\<close> or by a
  later operation: the key is still indexed), \<open>Find(id)\<close> returns an item whose data
  are \<open>data\<close>, and leaves the cache as it is.
\<close>

theorem Save_then_Find:
  assumes "Save a_ID a_Data now s fs = Some (True, s1, fs1)"
    and "run cs (s1, fs1) = Some (s2, fs2)"
    and "list_all (leaves_key (Replace a_ID CHR ''/'' CHR ''_'')) cs"
    and "map_of (m_Cache s2) (Replace a_ID CHR ''/'' CHR ''_'') \<noteq> None"
  shows "\<exists>item. Find a_ID s2 fs2 = (Some item, s2) \<and> m_Data item = a_Data"
proof -
  let ?k = "Replace a_ID CHR ''/'' CHR ''_''"
  from assms(4) obtain it2 where it2: "map_of (m_Cache s2) ?k = Some it2" by auto
  from assms(3) have "\<forall>c \<in> set cs. leaves_key ?k c" by (simp add: list_all_iff)
  from run_entry[OF this assms(2) it2] obtain it1
    where it1: "map_of (m_Cache s1) ?k = Some it1" "m_bLoaded it1 \<longrightarrow> it2 = it1" by blast
  from Save_entry[OF assms(1) it1(1)] have "m_bLoaded it1" "m_Data it1 = a_Data" by simp_all
  with it1 it2 have "map_of (m_Cache s2) ?k = Some it1" by simp
  from Find_loaded[OF this \<open>m_bLoaded it1\<close>] \<open>m_Data it1 = a_Data\<close> show ?thesis by blast
qed

theorem Save_then_Find_witness:
  "Save ''a/b'' ''hello'' 200 cache_a fs_a = Some (True, cache_saved, fs_saved) \<and>
   run [OpFind ''a'', OpSave ''c'' ''xyz'' 300, OpFlush ''a''] (cache_saved, fs_saved) =
     Some (cache_later, fs_later) \<and>
   list_all (leaves_key (Replace ''a/b'' CHR ''/'' CHR ''_''))
     [OpFind ''a'', OpSave ''c'' ''xyz'' 300, OpFlush ''a''] \<and>
   map_of (m_Cache cache_later) (Replace ''a/b'' CHR ''/'' CHR ''_'') \<noteq> None \<and>
   Find ''a/b'' cache_later fs_later = (Some item_ab, cache_later) \<and>
   m_Data item_ab = ''hello''"
proof -
  have sv: "Save ''a/b'' ''hello'' 200 cache_a fs_a = Some (True, cache_saved, fs_saved)"
    by (simp add: Save_result Replace_def cache_a_def fs_a_def item_a_def item_ab_def
        cache_saved_def fs_saved_def cache_put_def write_file_def evict_loop.simps Let_def)
  have f1: "Find ''a'' cache_saved fs_saved = (Some item_a, cache_saved)"
    by (simp add: Find_def Replace_def cache_saved_def item_a_def Let_def)
  have s2: "Save ''c'' ''xyz'' 300 cache_saved fs_saved =
      Some (True,
        cache_saved\<lparr>m_Cache := [(''a'', item_a), (''a_b'', item_ab), (''c'', item_c)],
                      m_CurrentCacheSize := 11\<rparr>,
        fs_saved\<lparr>fs_files := fs_files fs_saved @ [(''/tmp/c/c.bytes'', \<lparr>f_data = ''xyz'', f_time = 300\<rparr>)]\<rparr>)"
    by (simp add: Save_result Replace_def cache_saved_def fs_saved_def item_a_def item_ab_def
        item_c_def cache_put_def write_file_def evict_loop.simps Let_def)
  have f3: "Flush ''a''
        (cache_saved\<lparr>m_Cache := [(''a'', item_a), (''a_b'', item_ab), (''c'', item_c)],
                      m_CurrentCacheSize := 11\<rparr>)
        (fs_saved\<lparr>fs_files := fs_files fs_saved @ [(''/tmp/c/c.bytes'', \<lparr>f_data = ''xyz'', f_time = 300\<rparr>)]\<rparr>)
      = (True, cache_later, fs_later)"
    by (simp add: Flush_result Replace_def cache_saved_def fs_saved_def item_a_def item_ab_def
        item_c_def cache_erase_def cache_later_def fs_later_def)
  have rn: "run [OpFind ''a'', OpSave ''c'' ''xyz'' 300, OpFlush ''a''] (cache_saved, fs_saved) =
     Some (cache_later, fs_later)"
    by (simp add: f1 s2 f3)
  have lk: "list_all (leaves_key (Replace ''a/b'' CHR ''/'' CHR ''_''))
     [OpFind ''a'', OpSave ''c'' ''xyz'' 300, OpFlush ''a'']"
    by (simp add: Replace_def)
  have pr: "map_of (m_Cache cache_later) (Replace ''a/b'' CHR ''/'' CHR ''_'') \<noteq> None"
    by (simp add: cache_later_def Replace_def)
  from Save_then_Find[OF sv rn lk pr] obtain item
    where fi: "Find ''a/b'' cache_later fs_later = (Some item, cache_later)" "m_Data item = ''hello''"
    by blast
  have "Find ''a/b'' cache_later fs_later = (Some item_ab, cache_later)"
    by (simp add: Find_def Replace_def cache_later_def item_ab_def Let_def)
  with fi sv rn lk pr show ?thesis by simp
qed

section \<open>Properties of the timer scheduler\<close>

subsection \<open>The internal insertion path\<close>

lemma InsertTimer_internal:
  "InsertTimer a False h q = Some (q', ev) \<Longrightarrow> ev = []"
  by (auto simp: InsertTimer_def split: option.splits prod.splits)

lemma InsertTimer_live: "h a = Some t \<Longrightarrow> \<exists>q' ev. InsertTimer a n h q = Some (q', ev)"
  by (auto simp: InsertTimer_def split: prod.splits)

lemma drain_events: "snd (snd (snd (drain now h q ds ev))) = ev"
proof (induction now h q ds ev rule: drain.induct)
  case (1 now h ds ev)
  show ?case by (simp add: drain.simps)
next
  case (2 now h w q ds ev)
  show ?case
  proof (cases "h w")
    case None
    with "2.IH"(1) show ?thesis by (simp add: drain.simps)
  next
    case (Some sp)
    show ?thesis
    proof (cases "now < m_NextSignal sp")
      case True
      with Some show ?thesis by (simp add: drain.simps)
    next
      case due: False
      let ?ds = "ds @ [if m_InvokeOnMain sp then InvokeOnMain w else InvokeOnThread w]"
      show ?thesis
      proof (cases "m_Recurring sp")
        case False
        from "2.IH"(3)[OF Some due refl False] Some due False show ?thesis
          by (simp add: Let_def drain.simps)
      next
        case True
        let ?h = "h(w \<mapsto> sp\<lparr>m_NextSignal := m_NextSignal sp +
                     (if m_Interval sp < MIN_INTERVAL_TIME then MIN_INTERVAL_TIME else m_Interval sp)\<rparr>)"
        from InsertTimer_live[of ?h w _ False q] obtain q1 ev1
          where ins: "InsertTimer w False ?h q = Some (q1, ev1)" by auto
        from InsertTimer_internal[OF ins] have ev1: "ev1 = []" .
        from "2.IH"(2)[OF Some due refl True refl refl ins refl]
        have "snd (snd (snd (drain now ?h q1 ?ds (ev @ ev1)))) = ev @ ev1" .
        with Some due True ins ev1 show ?thesis by (simp add: Let_def drain.simps)
      qed
    qed
  qed
qed

text \<open>
  Claim C9. When the drain loop dispatches a timer that is recurring (the head of the
  queue, alive and due), it sets the timer's next signal to the previous one plus
  \<open>max interval MIN_INTERVAL_TIME\<close> and reinserts it with \<open>InsertTimer(spTimer, false)\<close>,
  which makes no call on the mutex or the condition variable (its list of such calls is
  empty); the loop goes on with the queue so obtained, and the whole drain leaves the
  list of those calls as it found it.
\<close>

theorem drain_recurring_step:
  assumes "h w = Some spTimer" and "\<not> now < m_NextSignal spTimer" and "m_Recurring spTimer"
  shows "\<exists>q'. InsertTimer w False
                 (h(w \<mapsto> spTimer\<lparr>m_NextSignal :=
                      m_NextSignal spTimer + max (m_Interval spTimer) MIN_INTERVAL_TIME\<rparr>)) q
               = Some (q', []) \<and>
              drain now h (w # q) ds ev =
              drain now
                (h(w \<mapsto> spTimer\<lparr>m_NextSignal :=
                      m_NextSignal spTimer + max (m_Interval spTimer) MIN_INTERVAL_TIME\<rparr>)) q'
                (ds @ [if m_InvokeOnMain spTimer then InvokeOnMain w else InvokeOnThread w]) ev \<and>
              snd (snd (snd (drain now h (w # q) ds ev))) = ev"
proof -
  let ?h = "h(w \<mapsto> spTimer\<lparr>m_NextSignal :=
                      m_NextSignal spTimer + max (m_Interval spTimer) MIN_INTERVAL_TIME\<rparr>)"
  have m: "(if m_Interval spTimer < MIN_INTERVAL_TIME then MIN_INTERVAL_TIME else m_Interval spTimer)
           = max (m_Interval spTimer) MIN_INTERVAL_TIME"
    by (simp add: max_def)
  from InsertTimer_live[of ?h w _ False q] obtain q1 ev1
    where ins: "InsertTimer w False ?h q = Some (q1, ev1)" by auto
  from InsertTimer_internal[OF ins] have ev1: "ev1 = []" .
  have step: "drain now h (w # q) ds ev =
      drain now ?h q1 (ds @ [if m_InvokeOnMain spTimer then InvokeOnMain w else InvokeOnThread w]) ev"
    using assms ins ev1 by (simp add: Let_def m drain.simps)
  have "snd (snd (snd (drain now h (w # q) ds ev))) = ev"
    by (rule drain_events)
  with ins ev1 step show ?thesis by auto
qed

theorem drain_recurring_step_witness:
  "timers_one 7 = Some timer_rec \<and> \<not> 10.005 < m_NextSignal timer_rec \<and> m_Recurring timer_rec \<and>
   InsertTimer 7 False (timers_one(7 \<mapsto> timer_rec\<lparr>m_NextSignal := 10.01\<rparr>)) [] = Some ([7], []) \<and>
   drain 10.005 timers_one [7] [] [] =
     (timers_one(7 \<mapsto> timer_rec\<lparr>m_NextSignal := 10.01\<rparr>), [7], [InvokeOnThread 7], [])"
proof -
  let ?h = "timers_one(7 \<mapsto> timer_rec\<lparr>m_NextSignal := 10.01\<rparr>)"
  have live: "timers_one 7 = Some timer_rec" by (simp add: timers_one_def)
  have due: "\<not> 10.005 < m_NextSignal timer_rec" by (simp add: timer_rec_def)
  have rec: "m_Recurring timer_rec" by (simp add: timer_rec_def)
  have nxt: "m_NextSignal timer_rec + max (m_Interval timer_rec) MIN_INTERVAL_TIME = 10.01"
    by (simp add: timer_rec_def MIN_INTERVAL_TIME_def)
  have tgt: "\<not> m_InvokeOnMain timer_rec" by (simp add: timer_rec_def)
  have stop: "drain 10.005 ?h [7] [InvokeOnThread 7] [] = (?h, [7], [InvokeOnThread 7], [])"
    by (simp add: drain.simps)
  from drain_recurring_step[where h = timers_one and w = 7 and spTimer = timer_rec
      and now = "10.005" and q = "[]" and ds = "[]" and ev = "[]", OF live due rec]
  obtain q' where ins: "InsertTimer 7 False ?h [] = Some (q', [])"
    and step: "drain 10.005 timers_one [7] [] [] = drain 10.005 ?h q' [InvokeOnThread 7] []"
    unfolding nxt using tgt by auto
  have "InsertTimer 7 False ?h [] = Some ([7], [])"
    by (simp add: InsertTimer_def)
  with ins have "q' = [7]" by simp
  with step stop ins live due rec show ?thesis by simp
qed

subsection \<open>Order of the queue and order of dispatch\<close>

lemma live_times_Nil: "live_times h [] = []"
  by (simp add: live_times_def map_filter_simps)

lemma live_times_Cons:
  "live_times h (w # q) =
     (case h w of None \<Rightarrow> live_times h q | Some t \<Rightarrow> m_NextSignal t # live_times h q)"
  by (simp add: live_times_def map_filter_simps split: option.splits)

lemma live_times_append: "live_times h (xs @ ys) = live_times h xs @ live_times h ys"
  by (induction xs) (auto simp: live_times_Nil live_times_Cons split: option.splits)

lemma live_times_mem:
  "x \<in> set (live_times h q) \<longleftrightarrow> (\<exists>w t. w \<in> set q \<and> h w = Some t \<and> m_NextSignal t = x)"
  by (induction q) (auto simp: live_times_Nil live_times_Cons split: option.splits)

lemma prefix_not_later:
  "x \<in> set (live_times h (takeWhile (\<lambda>w. \<not> later h T w) q)) \<Longrightarrow> x \<le> T"
  by (auto simp: live_times_mem later_def dest!: set_takeWhileD)

lemma suffix_later:
  assumes "queue_sorted h q" "x \<in> set (live_times h (dropWhile (\<lambda>w. \<not> later h T w) q))"
  shows "T < x"
proof (cases "dropWhile (\<lambda>w. \<not> later h T w) q")
  case Nil
  with assms(2) show ?thesis by (simp add: live_times_Nil)
next
  case (Cons w rest)
  then have "later h T w" using hd_dropWhile[of "\<lambda>w. \<not> later h T w" q] by auto
  then obtain tw where tw: "h w = Some tw" "T < m_NextSignal tw"
    by (auto simp: later_def split: option.splits)
  have "sorted (live_times h (takeWhile (\<lambda>w. \<not> later h T w) q) @
                live_times h (dropWhile (\<lambda>w. \<not> later h T w) q))"
    using assms(1) unfolding queue_sorted_def live_times_append[symmetric] by simp
  then have "sorted (live_times h (w # rest))"
    unfolding Cons by (simp add: sorted_append)
  with tw have "\<forall>y \<in> set (live_times h (w # rest)). m_NextSignal tw \<le> y"
    by (auto simp: live_times_Cons)
  with assms(2) tw show ?thesis unfolding Cons by fastforce
qed

lemma insert_sorted:
  assumes "queue_sorted h q" "h b = Some tb"
  shows "queue_sorted h (takeWhile (\<lambda>w. \<not> later h (m_NextSignal tb) w) q @
                          b # dropWhile (\<lambda>w. \<not> later h (m_NextSignal tb) w) q)"
proof -
  let ?P = "\<lambda>w. \<not> later h (m_NextSignal tb) w"
  have s: "sorted (live_times h (takeWhile ?P q) @ live_times h (dropWhile ?P q))"
    using assms(1) unfolding queue_sorted_def live_times_append[symmetric] by simp
  have lo: "\<forall>x \<in> set (live_times h (takeWhile ?P q)). x \<le> m_NextSignal tb"
    using prefix_not_later by blast
  have hi: "\<forall>x \<in> set (live_times h (dropWhile ?P q)). m_NextSignal tb < x"
    using suffix_later[OF assms(1)] by blast
  show ?thesis
    unfolding queue_sorted_def live_times_append live_times_Cons
    using s lo hi assms(2) by (fastforce simp: sorted_append)
qed

lemma insert_keeps_prefix:
  "b \<notin> set (takeWhile (\<lambda>x. x \<noteq> a) q) \<Longrightarrow> w \<noteq> b \<Longrightarrow>
   b \<notin> set (takeWhile (\<lambda>x. x \<noteq> a) (takeWhile P q @ w # dropWhile P q))"
  by (induction q) (auto split: if_splits)

lemma order_inv_expired: "order_inv a b (w # q) F \<Longrightarrow> w \<noteq> a \<Longrightarrow> order_inv a b q F"
  by (auto simp: order_inv_def)

lemma order_inv_dispatch:
  assumes "a \<noteq> b" "order_inv a b (w # q) F"
    and "b \<notin> set (takeWhile (\<lambda>x. x \<noteq> a) q) \<Longrightarrow> w \<noteq> b \<Longrightarrow> b \<notin> set (takeWhile (\<lambda>x. x \<noteq> a) q2)"
  shows "order_inv a b q2 (F @ [w])"
proof -
  have fb: "fires_before a b (F @ [w])"
    using assms(1,2) by (auto simp: order_inv_def fires_before_def takeWhile_append split: if_splits)
  have "b \<notin> set (takeWhile (\<lambda>x. x \<noteq> a) q2)" if "a \<notin> set (F @ [w])"
  proof -
    from that have "a \<notin> set F" "w \<noteq> a" by auto
    with assms(2) have "b \<noteq> w" "b \<notin> set (takeWhile (\<lambda>x. x \<noteq> a) q)"
      by (auto simp: order_inv_def)
    then show ?thesis using assms(3) by auto
  qed
  with fb show ?thesis by (simp add: order_inv_def)
qed

lemma drain_order:
  "a \<noteq> b \<Longrightarrow> h a \<noteq> None \<Longrightarrow> order_inv a b q (map target ds) \<Longrightarrow>
   fires_before a b (fired (drain now h q ds ev))"
proof (induction now h q ds ev rule: drain.induct)
  case (1 now h ds ev)
  then show ?case by (simp add: drain.simps fired_def order_inv_def)
next
  case (2 now h w q ds ev)
  show ?case
  proof (cases "h w")
    case None
    with "2.prems"(2) have "w \<noteq> a" by auto
    with "2.prems"(3) have "order_inv a b q (map target ds)" by (rule order_inv_expired)
    from "2.IH"(1)[OF None "2.prems"(1,2) this] None show ?thesis
      by (simp add: drain.simps)
  next
    case (Some sp)
    show ?thesis
    proof (cases "now < m_NextSignal sp")
      case True
      with Some "2.prems"(3) show ?thesis
        by (simp add: drain.simps fired_def order_inv_def)
    next
      case due: False
      let ?d = "if m_InvokeOnMain sp then InvokeOnMain w else InvokeOnThread w"
      have tgt: "map target (ds @ [?d]) = map target ds @ [w]" by simp
      show ?thesis
      proof (cases "m_Recurring sp")
        case False
        have "order_inv a b q (map target (ds @ [?d]))"
          unfolding tgt using "2.prems"(1,3) by (rule order_inv_dispatch)
        then have "fires_before a b (fired (drain now h q (ds @ [?d]) ev))"
          by (rule "2.IH"(3)[OF Some due refl False "2.prems"(1,2)])
        moreover have "drain now h (w # q) ds ev = drain now h q (ds @ [?d]) ev"
          using Some due False by (simp add: drain.simps Let_def)
        ultimately show ?thesis by simp
      next
        case True
        let ?h = "h(w \<mapsto> sp\<lparr>m_NextSignal := m_NextSignal sp +
                     (if m_Interval sp < MIN_INTERVAL_TIME then MIN_INTERVAL_TIME else m_Interval sp)\<rparr>)"
        from InsertTimer_live[of ?h w _ False q] obtain q1 ev1
          where ins: "InsertTimer w False ?h q = Some (q1, ev1)" by auto
        from InsertTimer_split[OF ins] obtain P where q1: "q1 = takeWhile P q @ w # dropWhile P q"
          by blast
        have inv: "order_inv a b q1 (map target (ds @ [?d]))"
          unfolding tgt using "2.prems"(1,3)
          by (rule order_inv_dispatch) (simp add: q1 insert_keeps_prefix)
        have live: "?h a \<noteq> None" using "2.prems"(2) by simp
        have step: "drain now h (w # q) ds ev = drain now ?h q1 (ds @ [?d]) (ev @ ev1)"
          using Some due True ins by (simp add: drain.simps Let_def)
        show ?thesis
          unfolding step
          by (rule "2.IH"(2)[OF Some due refl True refl refl ins refl "2.prems"(1) live inv])
      qed
    qed
  qed
qed

lemma InsertTimer_after_equal:
  assumes "queue_sorted h q" "a \<in> set q" "b \<notin> set q"
    and "h a = Some ta" "h b = Some tb" "m_NextSignal ta = m_NextSignal tb"
  shows "b \<notin> set (takeWhile (\<lambda>x. x \<noteq> a)
           (takeWhile (\<lambda>w. \<not> later h (m_NextSignal tb) w) q @
            b # dropWhile (\<lambda>w. \<not> later h (m_NextSignal tb) w) q))"
proof -
  let ?P = "\<lambda>w. \<not> later h (m_NextSignal tb) w"
  have "a \<in> set (takeWhile ?P q)"
  proof (rule ccontr)
    assume "a \<notin> set (takeWhile ?P q)"
    with assms(2) have "a \<in> set (dropWhile ?P q)"
      by (metis Un_iff set_append takeWhile_dropWhile_id)
    with assms(4) have "m_NextSignal ta \<in> set (live_times h (dropWhile ?P q))"
      by (auto simp: live_times_mem)
    from suffix_later[OF assms(1) this] assms(6) show False by simp
  qed
  then have "takeWhile (\<lambda>x. x \<noteq> a) (takeWhile ?P q @ b # dropWhile ?P q) =
             takeWhile (\<lambda>x. x \<noteq> a) (takeWhile ?P q)"
    by (simp add: takeWhile_append1)
  moreover have "b \<notin> set (takeWhile ?P q)" using assms(3) by (auto dest: set_takeWhileD)
  ultimately show ?thesis by (auto dest: set_takeWhileD)
qed

lemma live_times_cong: "\<forall>x \<in> set q. h' x = h x \<Longrightarrow> live_times h' q = live_times h q"
  by (induction q) (auto simp: live_times_Nil live_times_Cons split: option.splits)

lemma queue_sorted_cong:
  "\<forall>x \<in> set q. h' x = h x \<Longrightarrow> queue_sorted h q \<Longrightarrow> queue_sorted h' q"
  using live_times_cong[of q h' h] by (simp add: queue_sorted_def)

lemma InsertTimer_sorted:
  assumes "queue_sorted h q" "InsertTimer b n h q = Some (q', ev)"
  shows "queue_sorted h q'"
proof -
  from InsertTimer_split[OF assms(2)] obtain tb where tb: "h b = Some tb"
    and q': "q' = takeWhile (\<lambda>w. \<not> later h (m_NextSignal tb) w) q @
                  b # dropWhile (\<lambda>w. \<not> later h (m_NextSignal tb) w) q"
    by blast
  show ?thesis unfolding q' using assms(1) tb by (rule insert_sorted)
qed

lemma InsertTimer_set:
  assumes "InsertTimer b n h q = Some (q', ev)"
  shows "set q' = insert b (set q)"
proof -
  from InsertTimer_split[OF assms] obtain P where q': "q' = takeWhile P q @ b # dropWhile P q"
    by blast
  have "set (takeWhile P q) \<union> set (dropWhile P q) = set q"
    using set_append[of "takeWhile P q" "dropWhile P q"] by (simp del: set_append)
  then show ?thesis unfolding q' by auto
qed

lemma InsertTimer_distinct:
  assumes "InsertTimer b n h q = Some (q', ev)" "distinct q" "b \<notin> set q"
  shows "distinct q'"
proof -
  from InsertTimer_split[OF assms(1)] obtain P where q': "q' = takeWhile P q @ b # dropWhile P q"
    by blast
  have "distinct q = (distinct (takeWhile P q) \<and> distinct (dropWhile P q) \<and>
                      set (takeWhile P q) \<inter> set (dropWhile P q) = {})"
    using distinct_append[of "takeWhile P q" "dropWhile P q"]
    by (simp only: takeWhile_dropWhile_id)
  with assms(2) have d: "distinct (takeWhile P q)" "distinct (dropWhile P q)"
    "set (takeWhile P q) \<inter> set (dropWhile P q) = {}"
    by blast+
  have "set (takeWhile P q) \<subseteq> set q" "set (dropWhile P q) \<subseteq> set q"
    by (blast dest: set_takeWhileD set_dropWhileD)+
  with assms(3) have nb: "b \<notin> set (takeWhile P q)" "b \<notin> set (dropWhile P q)"
    by blast+
  show ?thesis unfolding q' using d nb by simp
qed

lemma queue_sorted_tail: "queue_sorted h (w # q) \<Longrightarrow> queue_sorted h q"
  by (auto simp: queue_sorted_def live_times_Cons split: option.splits)

lemma queue_sorted_head:
  "queue_sorted h (w # q) \<Longrightarrow> h w = Some sp \<Longrightarrow> a \<in> set q \<Longrightarrow> h a = Some ta \<Longrightarrow>
   m_NextSignal sp \<le> m_NextSignal ta"
proof -
  assume "queue_sorted h (w # q)" "h w = Some sp" "a \<in> set q" "h a = Some ta"
  then have "sorted (m_NextSignal sp # live_times h q)"
    and "m_NextSignal ta \<in> set (live_times h q)"
    by (auto simp: queue_sorted_def live_times_Cons live_times_mem)
  then show ?thesis by simp
qed

lemma drain_keeps_fired: "set (map target ds) \<subseteq> set (fired (drain now h q ds ev))"
proof (induction now h q ds ev rule: drain.induct)
  case (1 now h ds ev)
  show ?case by (simp add: drain.simps fired_def)
next
  case (2 now h w q ds ev)
  show ?case
  proof (cases "h w")
    case None
    with "2.IH"(1)[OF None] show ?thesis by (simp add: drain.simps)
  next
    case (Some sp)
    show ?thesis
    proof (cases "now < m_NextSignal sp")
      case True
      with Some show ?thesis by (simp add: drain.simps fired_def)
    next
      case due: False
      let ?d = "if m_InvokeOnMain sp then InvokeOnMain w else InvokeOnThread w"
      show ?thesis
      proof (cases "m_Recurring sp")
        case False
        have step: "drain now h (w # q) ds ev = drain now h q (ds @ [?d]) ev"
          using Some due False by (simp add: drain.simps Let_def)
        have sub: "set (map target ds) \<subseteq> set (map target (ds @ [?d]))" by auto
        from sub "2.IH"(3)[OF Some due refl False] show ?thesis
          unfolding step by (rule subset_trans)
      next
        case True
        let ?h = "h(w \<mapsto> sp\<lparr>m_NextSignal := m_NextSignal sp +
                     (if m_Interval sp < MIN_INTERVAL_TIME then MIN_INTERVAL_TIME else m_Interval sp)\<rparr>)"
        from InsertTimer_live[of ?h w _ False q] obtain q1 ev1
          where ins: "InsertTimer w False ?h q = Some (q1, ev1)" by auto
        have step: "drain now h (w # q) ds ev = drain now ?h q1 (ds @ [?d]) (ev @ ev1)"
          using Some due True ins by (simp add: drain.simps Let_def)
        have sub: "set (map target ds) \<subseteq> set (map target (ds @ [?d]))" by auto
        from sub "2.IH"(2)[OF Some due refl True refl refl ins refl] show ?thesis
          unfolding step by (rule subset_trans)
      qed
    qed
  qed
qed

lemma drain_fires:
  "distinct q \<Longrightarrow> queue_sorted h q \<Longrightarrow> a \<in> set q \<Longrightarrow> h a = Some ta \<Longrightarrow>
   m_NextSignal ta \<le> now \<Longrightarrow> a \<in> set (fired (drain now h q ds ev))"
proof (induction now h q ds ev rule: drain.induct)
  case (1 now h ds ev)
  then show ?case by simp
next
  case (2 now h w q ds ev)
  note d = "2.prems"(1) and srt = "2.prems"(2) and mem = "2.prems"(3)
    and live = "2.prems"(4) and due_a = "2.prems"(5)
  from d have dq: "distinct q" and wq: "w \<notin> set q" by auto
  from srt have sq: "queue_sorted h q" by (rule queue_sorted_tail)
  show ?case
  proof (cases "h w")
    case None
    with live mem have "a \<in> set q" by auto
    from "2.IH"(1)[OF None dq sq this live due_a] None show ?thesis
      by (simp add: drain.simps)
  next
    case (Some sp)
    have le: "m_NextSignal sp \<le> m_NextSignal ta"
    proof (cases "a = w")
      case True
      with Some live show ?thesis by simp
    next
      case False
      with mem have "a \<in> set q" by simp
      from queue_sorted_head[OF srt Some this live] show ?thesis .
    qed
    with due_a have due: "\<not> now < m_NextSignal sp" by simp
    let ?d = "if m_InvokeOnMain sp then InvokeOnMain w else InvokeOnThread w"
    show ?thesis
    proof (cases "m_Recurring sp")
      case False
      have step: "drain now h (w # q) ds ev = drain now h q (ds @ [?d]) ev"
        using Some due False by (simp add: drain.simps Let_def)
      show ?thesis
      proof (cases "a = w")
        case True
        then have "a \<in> set (map target (ds @ [?d]))" by simp
        with drain_keeps_fired[of "ds @ [?d]" now h q ev] show ?thesis
          unfolding step by blast
      next
        case False
        with mem have "a \<in> set q" by simp
        from "2.IH"(3)[OF Some due refl \<open>\<not> m_Recurring sp\<close> dq sq this live due_a]
        show ?thesis unfolding step .
      qed
    next
      case True
      let ?sp = "sp\<lparr>m_NextSignal := m_NextSignal sp +
                     (if m_Interval sp < MIN_INTERVAL_TIME then MIN_INTERVAL_TIME else m_Interval sp)\<rparr>"
      let ?h = "h(w \<mapsto> ?sp)"
      from InsertTimer_live[of ?h w _ False q] obtain q1 ev1
        where ins: "InsertTimer w False ?h q = Some (q1, ev1)" by auto
      have step: "drain now h (w # q) ds ev = drain now ?h q1 (ds @ [?d]) (ev @ ev1)"
        using Some due True ins by (simp add: drain.simps Let_def)
      show ?thesis
      proof (cases "a = w")
        case True
        then have "a \<in> set (map target (ds @ [?d]))" by simp
        with drain_keeps_fired[of "ds @ [?d]" now ?h q1 "ev @ ev1"] show ?thesis
          unfolding step by blast
      next
        case False
        with mem have aq: "a \<in> set q" by simp
        from InsertTimer_set[OF ins] aq have a1: "a \<in> set q1" by simp
        from ins dq wq have d1: "distinct q1" by (rule InsertTimer_distinct)
        have "\<forall>x \<in> set q. ?h x = h x" using wq by auto
        then have "queue_sorted ?h q" using sq by (rule queue_sorted_cong)
        then have s1: "queue_sorted ?h q1" using ins by (rule InsertTimer_sorted)
        have l1: "?h a = Some ta" using False live by simp
        from "2.IH"(2)[OF Some due refl True refl refl ins refl d1 s1 a1 l1 due_a]
        show ?thesis unfolding step .
      qed
    qed
  qed
qed

text \<open>
  Claim C8. Let the queue be in ascending order of next-signal time (over its live
  entries) and let \<open>InsertTimer\<close> insert the live timer \<open>b\<close>. Then \<open>b\<close> is put at the first
  position whose entry is alive with a strictly greater next-signal time (at the end when
  there is none): every live entry before \<open>b\<close> has a time less than or equal to that of
  \<open>b\<close>, so entries with an equal time stay ahead of it in their earlier order, and every
  live entry after \<open>b\<close> has a strictly greater time. The queue is in ascending order
  again. Consequently, for a live timer \<open>a\<close> already queued with the same next-signal
  time as the new timer \<open>b\<close>, the drain of one wake cycle never dispatches \<open>b\<close> before
  \<open>a\<close>; and when that time has come (and no timer is queued twice) it dispatches both.
\<close>

theorem InsertTimer_keeps_order:
  assumes "queue_sorted h q" and "InsertTimer b n h q = Some (q', ev)"
  shows "(\<exists>tb pre post. h b = Some tb \<and> q = pre @ post \<and> q' = pre @ b # post \<and>
            (\<forall>w \<in> set pre. \<forall>t. h w = Some t \<longrightarrow> m_NextSignal t \<le> m_NextSignal tb) \<and>
            (\<forall>w \<in> set post. \<forall>t. h w = Some t \<longrightarrow> m_NextSignal tb < m_NextSignal t) \<and>
            (post \<noteq> [] \<longrightarrow> later h (m_NextSignal tb) (hd post))) \<and>
         queue_sorted h q' \<and>
         (\<forall>a ta tb. a \<in> set q \<and> b \<notin> set q \<and> h a = Some ta \<and> h b = Some tb \<and>
                   m_NextSignal ta = m_NextSignal tb
            \<longrightarrow> fires_before a b (fired (drain now h q' [] [])) \<and>
                (distinct q \<and> m_NextSignal ta \<le> now
                 \<longrightarrow> a \<in> set (fired (drain now h q' [] [])) \<and>
                     b \<in> set (fired (drain now h q' [] []))))"
proof -
  from InsertTimer_split[OF assms(2)] obtain tb where tb: "h b = Some tb"
    and q': "q' = takeWhile (\<lambda>w. \<not> later h (m_NextSignal tb) w) q @
                  b # dropWhile (\<lambda>w. \<not> later h (m_NextSignal tb) w) q"
    by blast
  let ?P = "\<lambda>w. \<not> later h (m_NextSignal tb) w"
  let ?pre = "takeWhile ?P q" and ?post = "dropWhile ?P q"
  have lo: "\<forall>w \<in> set ?pre. \<forall>t. h w = Some t \<longrightarrow> m_NextSignal t \<le> m_NextSignal tb"
    using prefix_not_later[of _ h "m_NextSignal tb" q] by (auto simp: live_times_mem)
  have hi: "\<forall>w \<in> set ?post. \<forall>t. h w = Some t \<longrightarrow> m_NextSignal tb < m_NextSignal t"
    using suffix_later[OF assms(1), of _ "m_NextSignal tb"] by (auto simp: live_times_mem)
  have first: "?post \<noteq> [] \<longrightarrow> later h (m_NextSignal tb) (hd ?post)"
    using hd_dropWhile[of ?P q] by auto
  have part1: "\<exists>tb pre post. h b = Some tb \<and> q = pre @ post \<and> q' = pre @ b # post \<and>
            (\<forall>w \<in> set pre. \<forall>t. h w = Some t \<longrightarrow> m_NextSignal t \<le> m_NextSignal tb) \<and>
            (\<forall>w \<in> set post. \<forall>t. h w = Some t \<longrightarrow> m_NextSignal tb < m_NextSignal t) \<and>
            (post \<noteq> [] \<longrightarrow> later h (m_NextSignal tb) (hd post))"
    using tb q' lo hi first
    by (intro exI[of _ tb] exI[of _ ?pre] exI[of _ ?post]) simp
  have part2: "queue_sorted h q'"
    unfolding q' using assms(1) tb by (rule insert_sorted)
  have part3: "fires_before a b (fired (drain now h q' [] []))"
    if "a \<in> set q" "b \<notin> set q" "h a = Some ta" "h b = Some tb'" "m_NextSignal ta = m_NextSignal tb'"
    for a ta tb'
  proof -
    from that tb have eq: "m_NextSignal ta = m_NextSignal tb" by simp
    from that have ne: "a \<noteq> b" by auto
    have "b \<notin> set (takeWhile (\<lambda>x. x \<noteq> a) q')"
      unfolding q' using assms(1) that(1,2,3) tb eq by (rule InsertTimer_after_equal)
    then have "order_inv a b q' (map target [])"
      by (simp add: order_inv_def fires_before_def)
    with ne show ?thesis using that(3) by (intro drain_order) auto
  qed
  have part4: "a \<in> set (fired (drain now h q' [] [])) \<and> b \<in> set (fired (drain now h q' [] []))"
    if "a \<in> set q" "b \<notin> set q" "h a = Some ta" "h b = Some tb'" "m_NextSignal ta = m_NextSignal tb'"
      "distinct q" "m_NextSignal ta \<le> now"
    for a ta tb'
  proof -
    from assms(2) that(6,2) have d: "distinct q'" by (rule InsertTimer_distinct)
    from InsertTimer_set[OF assms(2)] that(1) have mem: "a \<in> set q'" "b \<in> set q'" by auto
    from that(5,7) have due: "m_NextSignal tb' \<le> now" by simp
    from drain_fires[OF d part2 mem(1) that(3,7)] drain_fires[OF d part2 mem(2) that(4) due]
    show ?thesis by simp
  qed
  from part1 part2 part3 part4 show ?thesis by blast
qed


theorem InsertTimer_keeps_order_witness:
  "queue_sorted timers_abc [1, 2] \<and>
   InsertTimer 3 True timers_abc [1, 2] = Some ([1, 3, 2], [Lock, Unlock]) \<and>
   queue_sorted timers_abc [1, 3, 2] \<and>
   fired (drain 6 timers_abc [1, 3, 2] [] []) = [1, 3] \<and>
   fires_before 1 3 (fired (drain 6 timers_abc [1, 3, 2] [] []))"
proof -
  have srt: "queue_sorted timers_abc [1, 2]"
    by (simp add: queue_sorted_def live_times_Cons live_times_Nil timers_abc_def timer_at_def)
  have ins: "InsertTimer 3 True timers_abc [1, 2] = Some ([1, 3, 2], [Lock, Unlock])"
    by (simp add: InsertTimer_def timers_abc_def timer_at_def)
  have run: "fired (drain 6 timers_abc [1, 3, 2] [] []) = [1, 3]"
    by (simp add: fired_def drain.simps timers_abc_def timer_at_def)
  from InsertTimer_keeps_order[OF srt ins, of 6]
  have "queue_sorted timers_abc [1, 3, 2]"
    and "fires_before 1 3 (fired (drain 6 timers_abc [1, 3, 2] [] []))"
    by (simp_all add: timers_abc_def timer_at_def)
  with srt ins run show ?thesis by simp
qed

end
